theory Spec2Isabelle
  imports Main "HOL-Library.Word"
begin

unbundle bit_operations_syntax

section \<open>C values and memory objects\<close>

text \<open>
  The three programs work on \<^verbatim>\<open>char\<close> arrays. A byte is an 8-bit word and an
  \<^verbatim>\<open>int\<close> that holds a converted or shifted byte is a 32-bit word. The loop counters
  and lengths of the source (\<^verbatim>\<open>int\<close> variables that start at 0 and only grow) are
  natural numbers; the parameters \<^verbatim>\<open>n\<close>, \<^verbatim>\<open>p\<close>, \<^verbatim>\<open>q\<close>, the key digit and every
  array index are integers. The development covers the runs in which no \<^verbatim>\<open>int\<close> of the
  source overflows, that is strings shorter than \<open>2 ^ 30\<close> bytes and a sum \<open>p + q\<close> in
  the range of \<^verbatim>\<open>int\<close>.

  Whether plain \<^verbatim>\<open>char\<close> is signed is fixed by the platform (signed on x86, unsigned on
  ARM Linux), so the conversion \<^verbatim>\<open>(int)c\<close> takes it as the parameter \<open>sc\<close>.

  The debugging lines that Day 1 prints inside its loop change no variable of the
  program and are left out.
\<close>

type_synonym byte = "8 word"
type_synonym cint = "32 word"

datatype fault =
    BadRead int      \<comment> \<open>read outside the object, at this index\<close>
  | BadWrite int     \<comment> \<open>write outside the object, at this index\<close>
  | DivByZero        \<comment> \<open>\<^verbatim>\<open>%\<close> with a zero divisor\<close>

definition seq :: "fault + 'a \<Rightarrow> ('a \<Rightarrow> fault + 'b) \<Rightarrow> fault + 'b" where
  "seq m f = (case m of Inl e \<Rightarrow> Inl e | Inr x \<Rightarrow> f x)"

text \<open>\<^verbatim>\<open>(int)c\<close> for a \<^verbatim>\<open>char c\<close>: sign extension where \<^verbatim>\<open>char\<close> is signed.\<close>

definition char_to_int :: "bool \<Rightarrow> byte \<Rightarrow> cint" where
  "char_to_int sc c = (if sc then scast c else ucast c)"

text \<open>Storing an \<^verbatim>\<open>int\<close> into a \<^verbatim>\<open>char\<close> keeps the low eight bits.\<close>

definition int_to_char :: "cint \<Rightarrow> byte" where
  "int_to_char v = ucast v"

text \<open>
  A string argument \<^verbatim>\<open>char* s\<close> is given by the bytes \<open>s\<close> in front of its final
  terminator: the object in memory is \<open>s @ [0]\<close>. \<^verbatim>\<open>strlen\<close> counts up to the first
  zero byte, which is the terminator unless \<open>s\<close> itself holds one.
\<close>

definition strlen :: "byte list \<Rightarrow> nat" where
  "strlen s = length (takeWhile (\<lambda>c. c \<noteq> 0) s)"

definition load :: "byte list \<Rightarrow> int \<Rightarrow> fault + byte" where
  "load obj i = (if 0 \<le> i \<and> i < int (length obj) then Inr (obj ! nat i) else Inl (BadRead i))"

definition load_str :: "byte list \<Rightarrow> int \<Rightarrow> fault + byte" where
  "load_str s i = load (s @ [0]) i"

definition store :: "byte list \<Rightarrow> int \<Rightarrow> byte \<Rightarrow> fault + byte list" where
  "store obj i v =
     (if 0 \<le> i \<and> i < int (length obj) then Inr (obj[nat i := v]) else Inl (BadWrite i))"

text \<open>\<^verbatim>\<open>calloc(n, sizeof(char))\<close>: a fresh object of \<open>n\<close> zero bytes.\<close>

definition calloc :: "nat \<Rightarrow> byte list" where
  "calloc n = replicate n 0"

text \<open>
  The string that a returned \<^verbatim>\<open>char*\<close> denotes, as \<^verbatim>\<open>printf("%s")\<close> reads it: the
  bytes up to the first zero, which has to lie inside the object.
\<close>

definition string_of :: "byte list \<Rightarrow> fault + byte list" where
  "string_of obj =
     (if 0 \<in> set obj then Inr (takeWhile (\<lambda>c. c \<noteq> 0) obj) else Inl (BadRead (int (length obj))))"

section \<open>The hex encoder\<close>

text \<open>
  \<^verbatim>\<open>sprintf(dst, "%02X", v)\<close> reads \<open>v\<close> as an \<^verbatim>\<open>unsigned int\<close>, writes its upper-case
  hexadecimal digits, padded with zeros to at least two, and a terminator after them.
\<close>

definition hex_digit :: "nat \<Rightarrow> byte" where
  "hex_digit d = (if d < 10 then 0x30 + of_nat d else 0x41 + of_nat (d - 10))"

fun hex_digits :: "nat \<Rightarrow> byte list" where
  "hex_digits v = (if v = 0 then [] else hex_digits (v div 16) @ [hex_digit (v mod 16)])"

declare hex_digits.simps [simp del]

definition fmt_02X :: "cint \<Rightarrow> byte list" where
  "fmt_02X v = (let ds = hex_digits (unat v) in replicate (2 - length ds) 0x30 @ ds)"

fun write_bytes :: "byte list \<Rightarrow> int \<Rightarrow> byte list \<Rightarrow> fault + byte list" where
  "write_bytes obj off [] = Inr obj"
| "write_bytes obj off (c # cs) =
     (case store obj off c of Inl e \<Rightarrow> Inl e | Inr obj' \<Rightarrow> write_bytes obj' (off + 1) cs)"

definition sprintf_02X :: "byte list \<Rightarrow> int \<Rightarrow> cint \<Rightarrow> fault + byte list" where
  "sprintf_02X obj off v = write_bytes obj off (fmt_02X v @ [0])"

text \<open>The loop of \<^verbatim>\<open>charToHex\<close>, the same in the three files.\<close>

function charToHex_loop :: "bool \<Rightarrow> byte list \<Rightarrow> nat \<Rightarrow> nat \<Rightarrow> byte list \<Rightarrow> fault + byte list" where
  "charToHex_loop sc ciphertext len i retval =
     (if i < len then
        (case load ciphertext (int i) of
           Inl e \<Rightarrow> Inl e
         | Inr c \<Rightarrow>
            (case sprintf_02X retval (2 * int i) (char_to_int sc c) of
               Inl e \<Rightarrow> Inl e
             | Inr retval' \<Rightarrow> charToHex_loop sc ciphertext len (i + 1) retval'))
      else Inr retval)"
  by pat_completeness auto
termination
  by (relation "measure (\<lambda>(sc, ciphertext, len, i, retval). len - i)") auto

declare charToHex_loop.simps [simp del]

text \<open>\<^verbatim>\<open>charToHex\<close> of Day 1 and Day 3.\<close>

definition charToHex :: "bool \<Rightarrow> byte list \<Rightarrow> nat \<Rightarrow> fault + byte list" where
  "charToHex sc ciphertext len = charToHex_loop sc ciphertext len 0 (calloc (2 * len + 1))"

section \<open>Day 5: the reverser and its hex encoder\<close>

text \<open>
  \<^verbatim>\<open>rev\<close> is given a pointer and returns another, and whether it leaves its input as it
  was is a question about the objects behind them. The heap is the list of the
  allocated objects, a pointer is the position of its object, and \<^verbatim>\<open>calloc\<close> adds an
  object at the end.
\<close>

type_synonym heap = "byte list list"

definition heap_calloc :: "heap \<Rightarrow> nat \<Rightarrow> heap \<times> nat" where
  "heap_calloc h n = (h @ [calloc n], length h)"

definition heap_load :: "heap \<Rightarrow> nat \<Rightarrow> int \<Rightarrow> fault + byte" where
  "heap_load h p i = (if p < length h then load (h ! p) i else Inl (BadRead i))"

definition heap_store :: "heap \<Rightarrow> nat \<Rightarrow> int \<Rightarrow> byte \<Rightarrow> fault + heap" where
  "heap_store h p i v =
     (if p < length h then
        (case store (h ! p) i v of Inl e \<Rightarrow> Inl e | Inr obj \<Rightarrow> Inr (h[p := obj]))
      else Inl (BadWrite i))"

function rev_loop :: "heap \<Rightarrow> nat \<Rightarrow> nat \<Rightarrow> nat \<Rightarrow> nat \<Rightarrow> fault + heap" where
  "rev_loop h input len retval i =
     (if int i < int len - 1 then
        (case heap_load h input (int len - 2 - int i) of
           Inl e \<Rightarrow> Inl e
         | Inr c \<Rightarrow>
            (case heap_store h retval (int i) c of
               Inl e \<Rightarrow> Inl e
             | Inr h' \<Rightarrow> rev_loop h' input len retval (i + 1)))
      else Inr h)"
  by pat_completeness auto
termination
  by (relation "measure (\<lambda>(h, input, len, retval, i). len - i)") auto

declare rev_loop.simps [simp del]

text \<open>
  \<^verbatim>\<open>rev(input, len)\<close>, which returns the heap it leaves and the pointer \<^verbatim>\<open>retval\<close>; the
  name \<open>rev\<close> is the list reversal of HOL.
\<close>

definition rev_c :: "heap \<Rightarrow> nat \<Rightarrow> nat \<Rightarrow> fault + heap \<times> nat" where
  "rev_c h input len =
     (case heap_calloc h len of
        (h0, retval) \<Rightarrow> seq (rev_loop h0 input len retval 0) (\<lambda>h'. Inr (h', retval)))"

text \<open>
  \<^verbatim>\<open>charToHex\<close> of Day 5, which returns \<^verbatim>\<open>rev(retval, 2*len + 1)\<close>: its own buffer is
  the object that \<^verbatim>\<open>rev\<close> reads, and the object that \<^verbatim>\<open>rev\<close> allocates is the result.
\<close>

definition charToHex_day5 :: "bool \<Rightarrow> byte list \<Rightarrow> nat \<Rightarrow> fault + byte list" where
  "charToHex_day5 sc ciphertext len =
     seq (charToHex_loop sc ciphertext len 0 (calloc (2 * len + 1))) (\<lambda>retval.
     seq (rev_c [retval] 0 (2 * len + 1)) (\<lambda>(h, reversed). Inr (h ! reversed)))"

section \<open>Day 1: XOR under a bit mask\<close>

record state_day1 =
  ciphertext1 :: "byte list"
  k_char :: byte
  k_index :: nat
  k_bit_index :: nat
  t_index :: nat

text \<open>The variables in front of the loop; \<^verbatim>\<open>k_char = key[0]\<close> reads the key.\<close>

definition init_day1 :: "byte list \<Rightarrow> byte list \<Rightarrow> fault + state_day1" where
  "init_day1 key plaintext =
     seq (load_str key 0) (\<lambda>k.
     seq (load_str plaintext 0) (\<lambda>pt_char.
     Inr \<lparr>ciphertext1 = calloc (strlen plaintext), k_char = k, k_index = 0,
          k_bit_index = 0, t_index = 0\<rparr>))"

text \<open>One execution of the body of the do-while loop.\<close>

definition body_day1 :: "bool \<Rightarrow> byte list \<Rightarrow> byte list \<Rightarrow> state_day1 \<Rightarrow> fault + state_day1" where
  "body_day1 sc key plaintext s =
     seq (if push_bit (k_bit_index s) (1 :: cint) AND char_to_int sc (k_char s) \<noteq> 0 then
            seq (load_str plaintext (int (t_index s))) (\<lambda>p.
            seq (load_str key (int (k_index s))) (\<lambda>k.
            store (ciphertext1 s) (int (t_index s))
              (int_to_char (char_to_int sc p XOR char_to_int sc k))))
          else
            seq (load_str plaintext (int (t_index s))) (\<lambda>p.
            store (ciphertext1 s) (int (t_index s)) p)) (\<lambda>buf.
     let t = t_index s + 1;
         kb = k_bit_index s + 1;
         ki = (if kb = 7 then k_index s + 1 else k_index s);
         kb = (if kb = 7 then 0 else kb);
         ki = (if ki = strlen key then 0 else ki)
     in seq (load_str key (int ki)) (\<lambda>k.
        Inr \<lparr>ciphertext1 = buf, k_char = k, k_index = ki, k_bit_index = kb, t_index = t\<rparr>))"

lemma body_day1_t_index:
  "body_day1 sc key plaintext s = Inr s' \<Longrightarrow> t_index s' = t_index s + 1"
  by (auto simp: body_day1_def seq_def Let_def split: sum.splits if_splits)

function loop_day1 :: "bool \<Rightarrow> byte list \<Rightarrow> byte list \<Rightarrow> state_day1 \<Rightarrow> fault + state_day1" where
  "loop_day1 sc key plaintext s =
     (case body_day1 sc key plaintext s of
        Inl e \<Rightarrow> Inl e
      | Inr s' \<Rightarrow>
          if t_index s' < strlen plaintext then loop_day1 sc key plaintext s' else Inr s')"
  by pat_completeness auto
termination
  by (relation "measure (\<lambda>(sc, key, plaintext, s). strlen plaintext - t_index s)")
     (auto dest: body_day1_t_index)

declare loop_day1.simps [simp del]

text \<open>The ciphertext bytes at the end of the loop, in front of the hex encoding.\<close>

definition crypt_day1_bytes :: "bool \<Rightarrow> byte list \<Rightarrow> byte list \<Rightarrow> fault + byte list" where
  "crypt_day1_bytes sc key plaintext =
     seq (init_day1 key plaintext) (\<lambda>s0.
     seq (loop_day1 sc key plaintext s0) (\<lambda>s. Inr (ciphertext1 s)))"

definition crypt_day1 :: "bool \<Rightarrow> byte list \<Rightarrow> byte list \<Rightarrow> fault + byte list" where
  "crypt_day1 sc key plaintext =
     seq (crypt_day1_bytes sc key plaintext) (\<lambda>ciphertext.
     charToHex sc ciphertext (strlen plaintext))"

text \<open>The state after \<open>k\<close> executions of the body, wherever the loop stops.\<close>

fun iter_day1 :: "bool \<Rightarrow> byte list \<Rightarrow> byte list \<Rightarrow> nat \<Rightarrow> fault + state_day1" where
  "iter_day1 sc key plaintext 0 = init_day1 key plaintext"
| "iter_day1 sc key plaintext (Suc k) =
     (case iter_day1 sc key plaintext k of
        Inl e \<Rightarrow> Inl e
      | Inr s \<Rightarrow> body_day1 sc key plaintext s)"

section \<open>Day 3: periodic increment and decrement\<close>

text \<open>
  \<^verbatim>\<open>index % (p+q)\<close> with C's remainder, which truncates towards zero and is undefined
  for a zero divisor.
\<close>

text \<open>
  The parameters \<open>p\<close> and \<open>q\<close> are the values of two \<^verbatim>\<open>int\<close>s, and \<open>p + q\<close> and \<open>p - 1\<close>
  below are the sums of the integers: they are what the program computes when they lie
  in the range of \<^verbatim>\<open>int\<close>. For positive \<open>p\<close> and \<open>q\<close> and a string shorter than \<open>2 ^ 30\<close>
  bytes a sum that leaves the range selects the same branch at every index; a theorem
  about other parameters has the range among its hypotheses.
\<close>

definition int_range :: "int \<Rightarrow> bool" where
  "int_range x \<longleftrightarrow> - (2 ^ 31) \<le> x \<and> x \<le> 2 ^ 31 - 1"

definition c_rem :: "int \<Rightarrow> int \<Rightarrow> fault + int" where
  "c_rem a b = (if b = 0 then Inl DivByZero else Inr (a - b * (sgn a * sgn b * (\<bar>a\<bar> div \<bar>b\<bar>))))"

record state_day3 =
  ciphertext3 :: "byte list"
  index3 :: nat

definition init_day3 :: "byte list \<Rightarrow> state_day3" where
  "init_day3 plaintext = \<lparr>ciphertext3 = calloc (strlen plaintext), index3 = 0\<rparr>"

definition body_day3 :: "bool \<Rightarrow> int \<Rightarrow> int \<Rightarrow> byte list \<Rightarrow> state_day3 \<Rightarrow> fault + state_day3" where
  "body_day3 sc p q plaintext s =
     seq (load_str plaintext (int (index3 s))) (\<lambda>plaintext_char.
     seq (c_rem (int (index3 s)) (p + q)) (\<lambda>r.
     seq (store (ciphertext3 s) (int (index3 s))
            (if r > p - 1 then int_to_char (char_to_int sc plaintext_char - 1)
             else int_to_char (char_to_int sc plaintext_char + 1))) (\<lambda>buf.
     Inr \<lparr>ciphertext3 = buf, index3 = index3 s + 1\<rparr>)))"

lemma body_day3_index:
  "body_day3 sc p q plaintext s = Inr s' \<Longrightarrow> index3 s' = index3 s + 1"
  by (auto simp: body_day3_def seq_def split: sum.splits)

function loop_day3 :: "bool \<Rightarrow> int \<Rightarrow> int \<Rightarrow> byte list \<Rightarrow> state_day3 \<Rightarrow> fault + state_day3" where
  "loop_day3 sc p q plaintext s =
     (case body_day3 sc p q plaintext s of
        Inl e \<Rightarrow> Inl e
      | Inr s' \<Rightarrow>
          if index3 s' < strlen plaintext then loop_day3 sc p q plaintext s' else Inr s')"
  by pat_completeness auto
termination
  by (relation "measure (\<lambda>(sc, p, q, plaintext, s). strlen plaintext - index3 s)")
     (auto dest: body_day3_index)

declare loop_day3.simps [simp del]

definition crypt_day3_bytes :: "bool \<Rightarrow> int \<Rightarrow> int \<Rightarrow> byte list \<Rightarrow> fault + byte list" where
  "crypt_day3_bytes sc p q plaintext =
     seq (loop_day3 sc p q plaintext (init_day3 plaintext)) (\<lambda>s. Inr (ciphertext3 s))"

definition crypt_day3 :: "bool \<Rightarrow> int \<Rightarrow> int \<Rightarrow> byte list \<Rightarrow> fault + byte list" where
  "crypt_day3 sc p q plaintext =
     seq (crypt_day3_bytes sc p q plaintext) (\<lambda>ciphertext.
     charToHex sc ciphertext (strlen plaintext))"

section \<open>Day 5: flipping and skipping\<close>

record state_day5 =
  ciphertext5 :: "byte list"
  char_index :: nat
  repeat_index :: nat
  skip_index :: nat
  key_index :: nat
  skip :: bool

text \<open>
  The variables in front of the loop. The array \<^verbatim>\<open>keys\<close> is allocated and never
  used.
\<close>

definition init_day5 :: "byte list \<Rightarrow> state_day5" where
  "init_day5 plaintext =
     \<lparr>ciphertext5 = calloc (strlen plaintext), char_index = 0, repeat_index = 0,
      skip_index = 0, key_index = 0, skip = False\<rparr>"

definition body_day5 :: "bool \<Rightarrow> byte list \<Rightarrow> int \<Rightarrow> byte list \<Rightarrow> state_day5 \<Rightarrow> fault + state_day5" where
  "body_day5 sc key n plaintext s =
     (if skip s then
        let si = skip_index s + 1;
            sk = (int si < n);
            si = (if \<not> sk then 0 else si)
        in seq (load_str plaintext (int (char_index s))) (\<lambda>p.
           seq (store (ciphertext5 s) (int (char_index s)) p) (\<lambda>buf.
           Inr (s\<lparr>ciphertext5 := buf, skip_index := si, skip := sk,
                  char_index := char_index s + 1\<rparr>)))
      else
        seq (load_str plaintext (int (char_index s))) (\<lambda>p.
        seq (store (ciphertext5 s) (int (char_index s))
               (int_to_char (char_to_int sc p XOR 127))) (\<lambda>buf.
        let ri = repeat_index s + 1 in
        seq (load_str key (int (key_index s))) (\<lambda>k.
        let sk = (int ri < sint (char_to_int sc k) - 48);
            ri = (if sk then 0 else ri);
            ki = (if sk then key_index s + 1 else key_index s);
            ki = (if sk \<and> ki > strlen key then 0 else ki)
        in Inr (s\<lparr>ciphertext5 := buf, repeat_index := ri, key_index := ki, skip := sk,
                  char_index := char_index s + 1\<rparr>)))))"

lemma body_day5_char_index:
  "body_day5 sc key n plaintext s = Inr s' \<Longrightarrow> char_index s' = char_index s + 1"
  by (auto simp: body_day5_def seq_def Let_def split: sum.splits if_splits)

function loop_day5 :: "bool \<Rightarrow> byte list \<Rightarrow> int \<Rightarrow> byte list \<Rightarrow> state_day5 \<Rightarrow> fault + state_day5" where
  "loop_day5 sc key n plaintext s =
     (case body_day5 sc key n plaintext s of
        Inl e \<Rightarrow> Inl e
      | Inr s' \<Rightarrow>
          if char_index s' < strlen plaintext then loop_day5 sc key n plaintext s' else Inr s')"
  by pat_completeness auto
termination
  by (relation "measure (\<lambda>(sc, key, n, plaintext, s). strlen plaintext - char_index s)")
     (auto dest: body_day5_char_index)

declare loop_day5.simps [simp del]

definition crypt_day5_bytes :: "bool \<Rightarrow> byte list \<Rightarrow> int \<Rightarrow> byte list \<Rightarrow> fault + byte list" where
  "crypt_day5_bytes sc key n plaintext =
     seq (loop_day5 sc key n plaintext (init_day5 plaintext)) (\<lambda>s. Inr (ciphertext5 s))"

definition crypt_day5 :: "bool \<Rightarrow> byte list \<Rightarrow> int \<Rightarrow> byte list \<Rightarrow> fault + byte list" where
  "crypt_day5 sc key n plaintext =
     seq (crypt_day5_bytes sc key n plaintext) (\<lambda>ciphertext.
     charToHex_day5 sc ciphertext (strlen plaintext))"

text \<open>The state after \<open>k\<close> executions of the body, wherever the loop stops.\<close>

fun iter_day5 :: "bool \<Rightarrow> byte list \<Rightarrow> int \<Rightarrow> byte list \<Rightarrow> nat \<Rightarrow> fault + state_day5" where
  "iter_day5 sc key n plaintext 0 = Inr (init_day5 plaintext)"
| "iter_day5 sc key n plaintext (Suc k) =
     (case iter_day5 sc key n plaintext k of
        Inl e \<Rightarrow> Inl e
      | Inr s \<Rightarrow> body_day5 sc key n plaintext s)"

section \<open>Facts about the C values\<close>

lemma take_bit_8_32_add: "take_bit 8 (take_bit 32 a + take_bit 32 b) = take_bit 8 (a + b :: int)"
proof -
  have "take_bit 8 (take_bit 32 a + take_bit 32 b) =
        take_bit 8 (take_bit 8 (take_bit 32 a) + take_bit 8 (take_bit 32 b))"
    by (simp only: take_bit_add)
  also have "\<dots> = take_bit 8 (take_bit 8 a + take_bit 8 b)"
    by simp
  also have "\<dots> = take_bit 8 (a + b)"
    by (simp only: take_bit_add)
  finally show ?thesis .
qed

lemma take_bit_8_32_diff: "take_bit 8 (take_bit 32 a - take_bit 32 b) = take_bit 8 (a - b :: int)"
proof -
  have "take_bit 8 (take_bit 32 a - take_bit 32 b) =
        take_bit 8 (take_bit 8 (take_bit 32 a) - take_bit 8 (take_bit 32 b))"
    by (simp only: take_bit_diff)
  also have "\<dots> = take_bit 8 (take_bit 8 a - take_bit 8 b)"
    by simp
  also have "\<dots> = take_bit 8 (a - b)"
    by (simp only: take_bit_diff)
  finally show ?thesis .
qed

lemma int_to_char_add: "int_to_char (a + b) = int_to_char a + int_to_char b"
  unfolding int_to_char_def by transfer (simp add: take_bit_8_32_add)

lemma int_to_char_diff: "int_to_char (a - b) = int_to_char a - int_to_char b"
  unfolding int_to_char_def by transfer (simp add: take_bit_8_32_diff)

lemma int_to_char_xor: "int_to_char (a XOR b) = int_to_char a XOR int_to_char b"
  unfolding int_to_char_def by (simp add: unsigned_xor_eq)

lemma int_to_char_of_char: "int_to_char (char_to_int sc c) = c"
  unfolding int_to_char_def char_to_int_def
  by (rule bit_word_eqI) (auto simp add: bit_simps)

lemma int_to_char_1: "int_to_char 1 = 1"
  by (simp add: int_to_char_def)

lemma int_to_char_127: "int_to_char 127 = 127"
  by (simp add: int_to_char_def)

lemma bit_test: "k < 7 \<Longrightarrow> (push_bit k (1::cint) AND char_to_int sc c \<noteq> 0) = bit c k"
  unfolding char_to_int_def
  by (simp add: and.commute and_exp_eq_0_iff_not_bit bit_simps)

lemma strlen_le: "strlen s \<le> length s"
  by (simp add: strlen_def length_takeWhile_le)

lemma load_str_in: "i < strlen s \<Longrightarrow> load_str s (int i) = Inr (s ! i)"
  using strlen_le [of s] by (simp add: load_str_def load_def nth_append)

lemma nth_strlen: "(s @ [0]) ! strlen s = 0"
  unfolding strlen_def by (induction s) auto

lemma load_str_strlen: "load_str s (int (strlen s)) = Inr 0"
  using strlen_le [of s] by (simp add: load_str_def load_def nth_strlen)

lemma store_in: "i < length obj \<Longrightarrow> store obj (int i) v = Inr (obj[i := v])"
  by (simp add: store_def)

lemma length_calloc: "length (calloc n) = n"
  by (simp add: calloc_def)

section \<open>Day 3: every byte moves by one\<close>

lemma c_rem_pos: "0 \<le> a \<Longrightarrow> 0 < b \<Longrightarrow> c_rem a b = Inr (a mod b)"
  by (simp add: c_rem_def sgn_if minus_mult_div_eq_mod)

lemma body_day3_eq:
  assumes "0 < p" "0 < q" "index3 s < strlen plaintext"
    and "length (ciphertext3 s) = strlen plaintext"
  shows "body_day3 sc p q plaintext s =
    Inr \<lparr>ciphertext3 = (ciphertext3 s)[index3 s :=
             (if p \<le> int (index3 s) mod (p + q) then plaintext ! index3 s - 1
              else plaintext ! index3 s + 1)],
         index3 = index3 s + 1\<rparr>"
  using assms
  by (simp add: body_day3_def seq_def load_str_in c_rem_pos store_in int_to_char_add
      int_to_char_diff int_to_char_of_char int_to_char_1)

lemma loop_day3_run:
  assumes "0 < p" "0 < q" "index3 s < strlen plaintext"
    and "length (ciphertext3 s) = strlen plaintext"
  shows "\<exists>s'. loop_day3 sc p q plaintext s = Inr s' \<and>
    length (ciphertext3 s') = strlen plaintext \<and>
    (\<forall>i < strlen plaintext. ciphertext3 s' ! i =
       (if i < index3 s then ciphertext3 s ! i
        else if p \<le> int i mod (p + q) then plaintext ! i - 1 else plaintext ! i + 1))"
  using assms(3,4)
proof (induction "strlen plaintext - index3 s" arbitrary: s)
  case 0
  then show ?case by simp
next
  case (Suc d)
  let ?v = "if p \<le> int (index3 s) mod (p + q) then plaintext ! index3 s - 1
            else plaintext ! index3 s + 1"
  let ?s1 = "\<lparr>ciphertext3 = (ciphertext3 s)[index3 s := ?v], index3 = index3 s + 1\<rparr>"
  have body: "body_day3 sc p q plaintext s = Inr ?s1"
    using assms(1,2) Suc.prems by (rule body_day3_eq)
  show ?case
  proof (cases "index3 s + 1 < strlen plaintext")
    case False
    with Suc.prems have last: "index3 s + 1 = strlen plaintext" by simp
    have "loop_day3 sc p q plaintext s = Inr ?s1"
      using body last by (subst loop_day3.simps) simp
    moreover have "\<forall>i < strlen plaintext. ciphertext3 ?s1 ! i =
       (if i < index3 s then ciphertext3 s ! i
        else if p \<le> int i mod (p + q) then plaintext ! i - 1 else plaintext ! i + 1)"
      using Suc.prems unfolding last [symmetric] by (auto simp: nth_list_update less_Suc_eq)
    ultimately show ?thesis using Suc.prems by simp
  next
    case True
    have "d = strlen plaintext - index3 ?s1" using Suc.hyps(2) by simp
    moreover have "index3 ?s1 < strlen plaintext" using True by simp
    moreover have "length (ciphertext3 ?s1) = strlen plaintext" using Suc.prems by simp
    ultimately obtain s' where s': "loop_day3 sc p q plaintext ?s1 = Inr s'"
      "length (ciphertext3 s') = strlen plaintext"
      "\<forall>i < strlen plaintext. ciphertext3 s' ! i =
       (if i < index3 ?s1 then ciphertext3 ?s1 ! i
        else if p \<le> int i mod (p + q) then plaintext ! i - 1 else plaintext ! i + 1)"
      using Suc.hyps(1) [of ?s1] by blast
    have "loop_day3 sc p q plaintext s = Inr s'"
      using body True s'(1) by (subst loop_day3.simps) simp
    moreover have "\<forall>i < strlen plaintext. ciphertext3 s' ! i =
       (if i < index3 s then ciphertext3 s ! i
        else if p \<le> int i mod (p + q) then plaintext ! i - 1 else plaintext ! i + 1)"
      using s'(3) Suc.prems by (auto simp: nth_list_update less_Suc_eq)
    ultimately show ?thesis using s'(2) by blast
  qed
qed

text \<open>
  Claim C2. For positive \<open>p\<close> and \<open>q\<close> the loop of Day 3 returns, its output is as long
  as the plaintext, and the byte at every index \<open>i\<close> is the plaintext byte minus one
  (modulo 256) where \<open>i mod (p + q)\<close> is at least \<open>p\<close>, and the plaintext byte plus one
  (modulo 256) elsewhere.
\<close>

theorem crypt_day3_byte:
  assumes "0 < p" "0 < q" "i < strlen plaintext"
  shows "\<exists>out. crypt_day3_bytes sc p q plaintext = Inr out \<and> length out = strlen plaintext \<and>
    out ! i = (if p \<le> int i mod (p + q) then plaintext ! i - 1 else plaintext ! i + 1)"
proof -
  let ?s0 = "init_day3 plaintext"
  have "index3 ?s0 < strlen plaintext" using assms(3) by (simp add: init_day3_def)
  moreover have "length (ciphertext3 ?s0) = strlen plaintext"
    by (simp add: init_day3_def length_calloc)
  ultimately obtain s' where "loop_day3 sc p q plaintext ?s0 = Inr s'"
    "length (ciphertext3 s') = strlen plaintext"
    "\<forall>i < strlen plaintext. ciphertext3 s' ! i =
       (if i < index3 ?s0 then ciphertext3 ?s0 ! i
        else if p \<le> int i mod (p + q) then plaintext ! i - 1 else plaintext ! i + 1)"
    using loop_day3_run [OF assms(1,2), of ?s0 plaintext sc] by blast
  then show ?thesis using assms(3) by (simp add: crypt_day3_bytes_def seq_def init_day3_def)
qed

text \<open>The scenario of the specification: \<open>p = 2\<close>, \<open>q = 1\<close> and the plaintext \<^verbatim>\<open>AB\<close>.\<close>

theorem crypt_day3_byte_witness:
  "(0::int) < 2 \<and> (0::int) < 1 \<and> 1 < strlen [0x41, 0x42] \<and>
   (\<exists>out. crypt_day3_bytes True 2 1 [0x41, 0x42] = Inr out \<and> length out = 2 \<and> out ! 1 = 0x43)"
proof -
  have len: "strlen [0x41, 0x42] = 2" by (simp add: strlen_def)
  show ?thesis
    using crypt_day3_byte [of 2 1 1 "[0x41, 0x42]" True] by (simp add: len)
qed

section \<open>Day 1: the key schedule and the output bytes\<close>

text \<open>The byte that Day 1 writes at position \<open>i\<close>, in closed form.\<close>

definition day1_key_pos :: "byte list \<Rightarrow> nat \<Rightarrow> nat" where
  "day1_key_pos key i = (i div 7) mod strlen key"

definition day1_byte :: "byte list \<Rightarrow> byte list \<Rightarrow> nat \<Rightarrow> byte" where
  "day1_byte key plaintext i =
     (if bit (key ! day1_key_pos key i) (i mod 7)
      then plaintext ! i XOR key ! day1_key_pos key i else plaintext ! i)"

lemma init_day1_eq:
  "init_day1 key plaintext =
     Inr \<lparr>ciphertext1 = calloc (strlen plaintext), k_char = (key @ [0]) ! 0, k_index = 0,
          k_bit_index = 0, t_index = 0\<rparr>"
  by (simp add: init_day1_def seq_def load_str_def load_def)

lemma map_upt_update:
  "t < n \<Longrightarrow> (map f [0..<t] @ replicate (n - t) z)[t := f t] =
     map f [0..<Suc t] @ replicate (n - Suc t) z"
  by (cases "n - t") (simp_all add: list_update_append Suc_diff_Suc)

lemma day1_key_pos_less: "0 < strlen key \<Longrightarrow> day1_key_pos key i < strlen key"
  by (simp add: day1_key_pos_def)

lemma day1_key_pos_Suc:
  "0 < strlen key \<Longrightarrow> day1_key_pos key (Suc t) =
     (if t mod 7 + 1 = 7
      then (if day1_key_pos key t + 1 = strlen key then 0 else day1_key_pos key t + 1)
      else day1_key_pos key t)"
  by (auto simp add: day1_key_pos_def div_Suc mod_Suc)

lemma body_day1_eq:
  assumes "0 < strlen key" "t < strlen plaintext"
  shows "body_day1 sc key plaintext
      \<lparr>ciphertext1 = map (day1_byte key plaintext) [0..<t] @ replicate (strlen plaintext - t) 0,
       k_char = key ! day1_key_pos key t, k_index = day1_key_pos key t,
       k_bit_index = t mod 7, t_index = t\<rparr> =
    Inr \<lparr>ciphertext1 = map (day1_byte key plaintext) [0..<Suc t] @
            replicate (strlen plaintext - Suc t) 0,
         k_char = key ! day1_key_pos key (Suc t), k_index = day1_key_pos key (Suc t),
         k_bit_index = Suc t mod 7, t_index = Suc t\<rparr>"
proof -
  let ?buf = "map (day1_byte key plaintext) [0..<t] @ replicate (strlen plaintext - t) 0"
  have bt: "(push_bit (t mod 7) (1 :: cint) AND char_to_int sc (key ! day1_key_pos key t) \<noteq> 0)
      = bit (key ! day1_key_pos key t) (t mod 7)"
    by (rule bit_test) simp
  have ldk: "load_str key (int (day1_key_pos key i)) = Inr (key ! day1_key_pos key i)" for i
    using assms(1) by (simp add: load_str_in day1_key_pos_less)
  have ldp: "load_str plaintext (int t) = Inr (plaintext ! t)"
    using assms(2) by (rule load_str_in)
  have st: "store ?buf (int t) v = Inr (?buf[t := v])" for v
    using assms(2) by (simp add: store_in)
  have upd: "?buf[t := day1_byte key plaintext t] =
      map (day1_byte key plaintext) [0..<Suc t] @ replicate (strlen plaintext - Suc t) 0"
    using assms(2) by (rule map_upt_update)
  have wr: "(if bit (key ! day1_key_pos key t) (t mod 7)
       then int_to_char (char_to_int sc (plaintext ! t) XOR char_to_int sc (key ! day1_key_pos key t))
       else plaintext ! t) = day1_byte key plaintext t"
    by (simp add: day1_byte_def int_to_char_xor int_to_char_of_char)
  have ki: "(if (if t mod 7 + 1 = 7 then day1_key_pos key t + 1 else day1_key_pos key t) = strlen key
        then 0 else (if t mod 7 + 1 = 7 then day1_key_pos key t + 1 else day1_key_pos key t))
      = day1_key_pos key (Suc t)"
    using assms(1) day1_key_pos_less [OF assms(1), of t] by (auto simp add: day1_key_pos_Suc)
  have kb: "(if t mod 7 + 1 = 7 then 0 else t mod 7 + 1) = Suc t mod 7"
    by (simp add: mod_Suc)
  show ?thesis
    unfolding body_day1_def
    apply (simp only: state_day1.simps bt ldp ldk st seq_def sum.case Let_def ki kb
        int_to_char_xor int_to_char_of_char)
    using wr upd
    apply (simp add: day1_byte_def split: if_splits)
    done
qed


lemma iter_day1_state:
  assumes "0 < strlen key" "t \<le> strlen plaintext"
  shows "iter_day1 sc key plaintext t =
    Inr \<lparr>ciphertext1 = map (day1_byte key plaintext) [0..<t] @
            replicate (strlen plaintext - t) 0,
         k_char = key ! day1_key_pos key t, k_index = day1_key_pos key t,
         k_bit_index = t mod 7, t_index = t\<rparr>"
  using assms(2)
proof (induction t)
  case 0
  have "key \<noteq> []"
    using assms(1) by (auto simp: strlen_def)
  then have "(key @ [0]) ! 0 = key ! 0"
    by (simp add: nth_append)
  then show ?case
    by (simp add: init_day1_eq calloc_def day1_key_pos_def)
next
  case (Suc t)
  then have "t < strlen plaintext" by simp
  with Suc show ?case
    by (simp add: body_day1_eq [OF assms(1)] del: upt_Suc)
qed

lemma iter_day1_fault:
  "iter_day1 sc key plaintext t = Inl e \<Longrightarrow> iter_day1 sc key plaintext (t + d) = Inl e"
  by (induction d) simp_all

lemma iter_day1_t_index:
  "iter_day1 sc key plaintext t = Inr s \<Longrightarrow> t_index s = t"
proof (induction t arbitrary: s)
  case 0
  then show ?case by (auto simp add: init_day1_eq)
next
  case (Suc t)
  then show ?case by (auto split: sum.splits dest: body_day1_t_index)
qed

text \<open>
  The loop runs its body once for every byte of a non-empty plaintext: started in the
  state after \<open>t\<close> executions, it ends in the state after \<open>strlen plaintext\<close> of them.
\<close>

lemma loop_day1_iter:
  assumes "iter_day1 sc key plaintext t = Inr s" "t < strlen plaintext"
  shows "loop_day1 sc key plaintext s = iter_day1 sc key plaintext (strlen plaintext)"
  using assms
proof (induction "strlen plaintext - t" arbitrary: t s)
  case 0
  then show ?case by simp
next
  case (Suc d)
  have next_state: "iter_day1 sc key plaintext (Suc t) = body_day1 sc key plaintext s"
    using Suc.prems(1) by simp
  show ?case
  proof (cases "body_day1 sc key plaintext s")
    case (Inl e)
    then have "iter_day1 sc key plaintext (Suc t + (strlen plaintext - Suc t)) = Inl e"
      using next_state by (intro iter_day1_fault) simp
    then have "iter_day1 sc key plaintext (strlen plaintext) = Inl e"
      using Suc.prems(2) by simp
    then show ?thesis using Inl by (subst loop_day1.simps) simp
  next
    case (Inr s')
    then have it: "iter_day1 sc key plaintext (Suc t) = Inr s'" using next_state by simp
    then have t': "t_index s' = Suc t" by (rule iter_day1_t_index)
    show ?thesis
    proof (cases "Suc t < strlen plaintext")
      case True
      have "d = strlen plaintext - Suc t" using Suc.hyps(2) by simp
      then have "loop_day1 sc key plaintext s' = iter_day1 sc key plaintext (strlen plaintext)"
        using it True by (rule Suc.hyps(1))
      then show ?thesis using Inr t' True by (subst loop_day1.simps) simp
    next
      case False
      then have "Suc t = strlen plaintext" using Suc.prems(2) by simp
      then show ?thesis using Inr t' it by (subst loop_day1.simps) auto
    qed
  qed
qed

lemma crypt_day1_bytes_eq:
  assumes "0 < strlen key" "0 < strlen plaintext"
  shows "crypt_day1_bytes sc key plaintext =
    Inr (map (day1_byte key plaintext) [0..<strlen plaintext])"
proof -
  obtain s0 where s0: "iter_day1 sc key plaintext 0 = Inr s0"
    by (simp add: init_day1_eq)
  then have "loop_day1 sc key plaintext s0 = iter_day1 sc key plaintext (strlen plaintext)"
    using assms(2) by (rule loop_day1_iter)
  then show ?thesis
    using s0 iter_day1_state [OF assms(1), of "strlen plaintext" plaintext sc]
    by (simp add: crypt_day1_bytes_def seq_def)
qed

text \<open>
  Claim C1. For a non-empty key and a position \<open>t\<close> of the plaintext, the loop of Day 1
  returns an output as long as the plaintext. In front of its execution for position
  \<open>t\<close> the bit index is \<open>t mod 7\<close> and the key index is \<open>(t div 7) mod strlen key\<close>, with
  \<open>k_char\<close> the key byte there; the output byte at \<open>t\<close> is the plaintext byte XOR that
  whole key byte when its bit \<open>t mod 7\<close> is set, and the plaintext byte when it is clear.
\<close>

theorem crypt_day1_byte:
  assumes "0 < strlen key" "t < strlen plaintext"
  shows "\<exists>out s. crypt_day1_bytes sc key plaintext = Inr out \<and> length out = strlen plaintext \<and>
    iter_day1 sc key plaintext t = Inr s \<and> t_index s = t \<and>
    k_bit_index s = t mod 7 \<and> k_index s = (t div 7) mod strlen key \<and>
    k_char s = key ! ((t div 7) mod strlen key) \<and>
    out ! t = (if bit (key ! ((t div 7) mod strlen key)) (t mod 7)
               then plaintext ! t XOR key ! ((t div 7) mod strlen key) else plaintext ! t)"
proof -
  have "0 < strlen plaintext" using assms(2) by simp
  then have "crypt_day1_bytes sc key plaintext =
      Inr (map (day1_byte key plaintext) [0..<strlen plaintext])"
    using assms(1) by (intro crypt_day1_bytes_eq)
  moreover have "map (day1_byte key plaintext) [0..<strlen plaintext] ! t =
      day1_byte key plaintext t"
    using assms(2) by simp
  moreover have "t \<le> strlen plaintext" using assms(2) by simp
  note iter_day1_state [OF assms(1) this, of sc]
  ultimately show ?thesis
    by (simp add: day1_byte_def day1_key_pos_def)
qed

text \<open>
  The scenario of the specification: the one-byte key \<open>0x01\<close> and the plaintext \<^verbatim>\<open>A\<close>
  give the byte \<open>0x40\<close>.
\<close>

theorem crypt_day1_byte_witness:
  "0 < strlen [0x01] \<and> 0 < strlen [0x41] \<and>
   (\<exists>out s. crypt_day1_bytes True [0x01] [0x41] = Inr out \<and> length out = strlen [0x41] \<and>
      iter_day1 True [0x01] [0x41] 0 = Inr s \<and> t_index s = 0 \<and>
      k_bit_index s = 0 \<and> k_index s = 0 \<and> k_char s = 0x01 \<and> out ! 0 = 0x40)"
proof -
  have len: "strlen [0x01] = 1" "strlen [0x41] = 1" by (simp_all add: strlen_def)
  show ?thesis
    using crypt_day1_byte [of "[0x01]" 0 "[0x41]" True] by (simp add: len)
qed

text \<open>
  Claim C10. With a non-empty key and a non-empty plaintext the run of the loop of
  Day 1 is the sequence of the states after \<open>k\<close> executions of its body, for \<open>k\<close> up to
  the length of the plaintext. Every key read uses the key index of one of them (the
  read in front of the loop that of the first, the read that ends an execution that of
  the state it produces), and in each of them the key index is below the length of the
  key.
\<close>

theorem day1_key_index_in_range:
  assumes "0 < strlen key" "0 < strlen plaintext" "k \<le> strlen plaintext"
  shows "seq (init_day1 key plaintext) (loop_day1 sc key plaintext) =
      iter_day1 sc key plaintext (strlen plaintext) \<and>
    (\<exists>s. iter_day1 sc key plaintext k = Inr s \<and> k_index s < strlen key \<and>
       load_str key (int (k_index s)) = Inr (key ! k_index s))"
proof -
  obtain s0 where s0: "iter_day1 sc key plaintext 0 = Inr s0"
    by (simp add: init_day1_eq)
  then have "loop_day1 sc key plaintext s0 = iter_day1 sc key plaintext (strlen plaintext)"
    using assms(2) by (rule loop_day1_iter)
  then have "seq (init_day1 key plaintext) (loop_day1 sc key plaintext) =
      iter_day1 sc key plaintext (strlen plaintext)"
    using s0 by (simp add: seq_def)
  moreover have "day1_key_pos key k < strlen key"
    using assms(1) by (rule day1_key_pos_less)
  ultimately show ?thesis
    using iter_day1_state [OF assms(1,3), of sc] by (simp add: load_str_in)
qed

theorem day1_key_index_in_range_witness:
  "0 < strlen [0x41, 0x42] \<and> 0 < strlen [1, 2, 3, 4, 5, 6, 7, 8] \<and>
   (7::nat) \<le> strlen [1, 2, 3, 4, 5, 6, 7, 8] \<and>
   seq (init_day1 [0x41, 0x42] [1, 2, 3, 4, 5, 6, 7, 8])
       (loop_day1 False [0x41, 0x42] [1, 2, 3, 4, 5, 6, 7, 8]) =
     iter_day1 False [0x41, 0x42] [1, 2, 3, 4, 5, 6, 7, 8] (strlen [1, 2, 3, 4, 5, 6, 7, 8]) \<and>
   (\<exists>s. iter_day1 False [0x41, 0x42] [1, 2, 3, 4, 5, 6, 7, 8] 7 = Inr s \<and>
      k_index s < strlen [0x41, 0x42] \<and>
      load_str [0x41, 0x42] (int (k_index s)) = Inr ([0x41, 0x42] ! k_index s))"
proof -
  have len: "strlen [0x41, 0x42] = 2" "strlen [1, 2, 3, 4, 5, 6, 7, 8] = 8"
    by (simp_all add: strlen_def)
  show ?thesis
    using day1_key_index_in_range [of "[0x41, 0x42]" "[1, 2, 3, 4, 5, 6, 7, 8]" 7 False]
    by (simp add: len)
qed

section \<open>Day 5: the phases and the output bytes\<close>

lemma load_str_le: "i \<le> strlen s \<Longrightarrow> load_str s (int i) = Inr ((s @ [0]) ! i)"
  using strlen_le [of s] by (simp add: load_str_def load_def)

lemma sint_char_to_int_0: "sint (char_to_int sc 0) = 0"
  by (simp add: char_to_int_def)

text \<open>
  One execution of the body, in a state whose key index is not beyond the terminator
  of the key: the byte written depends on the phase alone, and the key index stays at
  or below the length of the key.
\<close>

lemma body_day5_ok:
  assumes "char_index s < strlen plaintext" "length (ciphertext5 s) = strlen plaintext"
    and "key_index s \<le> strlen key"
  shows "\<exists>s'. body_day5 sc key n plaintext s = Inr s' \<and>
    char_index s' = char_index s + 1 \<and> key_index s' \<le> strlen key \<and>
    ciphertext5 s' = (ciphertext5 s)[char_index s :=
      (if skip s then plaintext ! char_index s else plaintext ! char_index s XOR 127)]"
proof (cases "skip s")
  case True
  then show ?thesis
    using assms by (simp add: body_day5_def Let_def seq_def load_str_in store_in)
next
  case False
  have wr: "int_to_char (char_to_int sc c XOR 127) = c XOR 127" for c
    by (simp add: int_to_char_xor int_to_char_of_char int_to_char_127)
  have ld: "load_str key (int (key_index s)) = Inr ((key @ [0]) ! key_index s)"
    using assms(3) by (rule load_str_le)
  show ?thesis
  proof (cases "key_index s = strlen key")
    case True
    then have "(key @ [0]) ! key_index s = 0" by (simp add: nth_strlen)
    then show ?thesis
      using assms \<open>\<not> skip s\<close> ld
      by (simp add: body_day5_def Let_def seq_def load_str_in store_in wr sint_char_to_int_0)
  next
    case False
    then have "key_index s < strlen key" using assms(3) by simp
    then show ?thesis
      using assms \<open>\<not> skip s\<close> ld
      by (simp add: body_day5_def Let_def seq_def load_str_in store_in wr)
  qed
qed

lemma iter_day5_inv:
  assumes "k \<le> strlen plaintext"
  shows "\<exists>s. iter_day5 sc key n plaintext k = Inr s \<and> char_index s = k \<and>
    length (ciphertext5 s) = strlen plaintext \<and> key_index s \<le> strlen key"
  using assms
proof (induction k)
  case 0
  show ?case by (simp add: init_day5_def length_calloc)
next
  case (Suc k)
  then obtain s where s: "iter_day5 sc key n plaintext k = Inr s" "char_index s = k"
    "length (ciphertext5 s) = strlen plaintext" "key_index s \<le> strlen key"
    by auto
  have "char_index s < strlen plaintext" using s(2) Suc.prems by simp
  from body_day5_ok [OF this s(3,4), of sc n] s(1,2,3) show ?case
    by auto
qed

text \<open>A byte, once written, stays: later executions write at higher positions.\<close>

lemma iter_day5_byte:
  assumes "i < k" "k \<le> strlen plaintext"
    and "iter_day5 sc key n plaintext i = Inr si" "iter_day5 sc key n plaintext k = Inr sk"
  shows "ciphertext5 sk ! i = (if skip si then plaintext ! i else plaintext ! i XOR 127)"
  using assms(1,2,4)
proof (induction k arbitrary: sk)
  case 0
  then show ?case by simp
next
  case (Suc k)
  obtain s where s: "iter_day5 sc key n plaintext k = Inr s" "char_index s = k"
    "length (ciphertext5 s) = strlen plaintext" "key_index s \<le> strlen key"
    using iter_day5_inv [of k plaintext sc key n] Suc.prems(2) by auto
  have "char_index s < strlen plaintext" using s(2) Suc.prems(2) by simp
  from body_day5_ok [OF this s(3,4), of sc n] s(1) Suc.prems(3)
  have upd: "ciphertext5 sk = (ciphertext5 s)[char_index s :=
      (if skip s then plaintext ! char_index s else plaintext ! char_index s XOR 127)]"
    by auto
  show ?case
  proof (cases "i = k")
    case True
    then have "si = s" using assms(3) s(1) by simp
    then show ?thesis using upd s(2,3) True Suc.prems(2) by simp
  next
    case False
    then have "i < k" using Suc.prems(1) by simp
    then have "ciphertext5 s ! i = (if skip si then plaintext ! i else plaintext ! i XOR 127)"
      using Suc.IH [of s] Suc.prems(2) s(1) by simp
    then show ?thesis using upd s(2) False by simp
  qed
qed

lemma iter_day5_fault:
  "iter_day5 sc key n plaintext t = Inl e \<Longrightarrow> iter_day5 sc key n plaintext (t + d) = Inl e"
  by (induction d) simp_all

lemma iter_day5_char_index:
  "iter_day5 sc key n plaintext t = Inr s \<Longrightarrow> char_index s = t"
proof (induction t arbitrary: s)
  case 0
  then show ?case by (auto simp add: init_day5_def)
next
  case (Suc t)
  then show ?case by (auto split: sum.splits dest: body_day5_char_index)
qed

lemma loop_day5_iter:
  assumes "iter_day5 sc key n plaintext t = Inr s" "t < strlen plaintext"
  shows "loop_day5 sc key n plaintext s = iter_day5 sc key n plaintext (strlen plaintext)"
  using assms
proof (induction "strlen plaintext - t" arbitrary: t s)
  case 0
  then show ?case by simp
next
  case (Suc d)
  have next_state: "iter_day5 sc key n plaintext (Suc t) = body_day5 sc key n plaintext s"
    using Suc.prems(1) by simp
  show ?case
  proof (cases "body_day5 sc key n plaintext s")
    case (Inl e)
    then have "iter_day5 sc key n plaintext (Suc t + (strlen plaintext - Suc t)) = Inl e"
      using next_state by (intro iter_day5_fault) simp
    then have "iter_day5 sc key n plaintext (strlen plaintext) = Inl e"
      using Suc.prems(2) by simp
    then show ?thesis using Inl by (subst loop_day5.simps) simp
  next
    case (Inr s')
    then have it: "iter_day5 sc key n plaintext (Suc t) = Inr s'" using next_state by simp
    then have t': "char_index s' = Suc t" by (rule iter_day5_char_index)
    show ?thesis
    proof (cases "Suc t < strlen plaintext")
      case True
      have "d = strlen plaintext - Suc t" using Suc.hyps(2) by simp
      then have "loop_day5 sc key n plaintext s' = iter_day5 sc key n plaintext (strlen plaintext)"
        using it True by (rule Suc.hyps(1))
      then show ?thesis using Inr t' True by (subst loop_day5.simps) simp
    next
      case False
      then have "Suc t = strlen plaintext" using Suc.prems(2) by simp
      then show ?thesis using Inr t' it by (subst loop_day5.simps) auto
    qed
  qed
qed

lemma crypt_day5_bytes_iter:
  assumes "0 < strlen plaintext"
  shows "crypt_day5_bytes sc key n plaintext =
    seq (iter_day5 sc key n plaintext (strlen plaintext)) (\<lambda>s. Inr (ciphertext5 s))"
proof -
  have "iter_day5 sc key n plaintext 0 = Inr (init_day5 plaintext)" by simp
  then have "loop_day5 sc key n plaintext (init_day5 plaintext) =
      iter_day5 sc key n plaintext (strlen plaintext)"
    using assms by (rule loop_day5_iter)
  then show ?thesis by (simp add: crypt_day5_bytes_def)
qed

text \<open>
  Claim C8. For every key, every \<open>n\<close> and every position \<open>i\<close> of the plaintext, the loop
  of Day 5 returns an output as long as the plaintext. The body is executed for position
  \<open>i\<close> in the state after \<open>i\<close> executions: in the skip phase the output byte is the input
  byte, in the flip phase the output byte XOR \<open>0x7F\<close> is the input byte. So every output
  byte is the input byte or the input byte XOR \<open>0x7F\<close>.
\<close>

theorem crypt_day5_byte:
  assumes "i < strlen plaintext"
  shows "\<exists>out s. crypt_day5_bytes sc key n plaintext = Inr out \<and>
    length out = strlen plaintext \<and>
    iter_day5 sc key n plaintext i = Inr s \<and> char_index s = i \<and>
    (if skip s then out ! i = plaintext ! i else out ! i XOR 0x7F = plaintext ! i) \<and>
    (out ! i = plaintext ! i \<or> out ! i = plaintext ! i XOR 0x7F)"
proof -
  obtain s where s: "iter_day5 sc key n plaintext i = Inr s" "char_index s = i"
    using iter_day5_inv [of i plaintext sc key n] assms by auto
  obtain sk where sk: "iter_day5 sc key n plaintext (strlen plaintext) = Inr sk"
    "length (ciphertext5 sk) = strlen plaintext"
    using iter_day5_inv [of "strlen plaintext" plaintext sc key n] by auto
  have out: "crypt_day5_bytes sc key n plaintext = Inr (ciphertext5 sk)"
    using assms sk(1) by (simp add: crypt_day5_bytes_iter seq_def)
  have byte: "ciphertext5 sk ! i = (if skip s then plaintext ! i else plaintext ! i XOR 127)"
    using assms s(1) sk(1) by (intro iter_day5_byte) simp_all
  have "(plaintext ! i XOR 127) XOR 127 = plaintext ! i"
    by (simp add: xor.assoc)
  with out sk(2) s byte show ?thesis by auto
qed

text \<open>
  The key \<^verbatim>\<open>8\<close>, \<open>n = 1\<close> and the plaintext \<^verbatim>\<open>Hi\<close>: the second byte is written in the
  skip phase and is the input byte \<open>0x69\<close>.
\<close>

theorem crypt_day5_byte_witness:
  "(1::nat) < strlen [0x48, 0x69] \<and>
   (\<exists>out s. crypt_day5_bytes True [0x38] 1 [0x48, 0x69] = Inr out \<and>
      length out = strlen [0x48, 0x69] \<and>
      iter_day5 True [0x38] 1 [0x48, 0x69] 1 = Inr s \<and> char_index s = 1 \<and> skip s \<and>
      out ! 1 = 0x69)"
proof -
  have len: "strlen [0x48, 0x69] = 2" by (simp add: strlen_def)
  have h: "(1::nat) < strlen [0x48, 0x69]" by (simp add: len)
  have "\<exists>s. iter_day5 True [0x38] 1 [0x48, 0x69] 1 = Inr s \<and> skip s"
    by (simp add: init_day5_def body_day5_def strlen_def seq_def load_str_def load_def
        store_def calloc_def char_to_int_def Let_def)
  with h crypt_day5_byte [OF h, of True "[0x38]" 1] show ?thesis
    by auto
qed

text \<open>
  A run that reads the key at its length: with the key \<^verbatim>\<open>2\<close>, \<open>n = 1\<close> and the plaintext
  \<^verbatim>\<open>abc\<close> the third execution of the body is in the flip phase with the key index 1.
  \<^verbatim>\<open>key[key_index]\<close> then reads the terminator of the string, and the execution leaves
  the key index where it is.
\<close>

lemma day5_key_read_at_key_length:
  "\<exists>key n plaintext k s. 0 < strlen key \<and> k < strlen plaintext \<and>
     iter_day5 sc key n plaintext k = Inr s \<and> \<not> skip s \<and> key_index s = strlen key \<and>
     load_str key (int (key_index s)) = Inr 0 \<and>
     (\<exists>s'. body_day5 sc key n plaintext s = Inr s' \<and> key_index s' = strlen key)"
proof -
  let ?key = "[0x32] :: byte list" and ?pt = "[0x61, 0x62, 0x63] :: byte list"
  let ?s = "\<lparr>ciphertext5 = [0x1E, 0x62, 0], char_index = 2, repeat_index = 0,
            skip_index = 0, key_index = 1, skip = False\<rparr>"
  have len: "strlen ?key = 1" "strlen ?pt = 3" by (simp_all add: strlen_def)
  have run: "iter_day5 sc ?key 1 ?pt (Suc (Suc 0)) = Inr ?s"
    by (simp add: init_day5_def body_day5_def strlen_def seq_def load_str_def
        load_def store_def calloc_def char_to_int_def int_to_char_def Let_def)
  have rd: "load_str ?key (int (key_index ?s)) = Inr 0"
    by (simp add: load_str_def load_def)
  have "\<exists>s'. body_day5 sc ?key 1 ?pt ?s = Inr s' \<and> key_index s' = strlen ?key"
    by (simp add: body_day5_def len seq_def load_str_def load_def store_def char_to_int_def
        Let_def)
  with run rd len show ?thesis
    by (intro exI [of _ ?key] exI [of _ "1::int"] exI [of _ ?pt] exI [of _ "Suc (Suc 0)"]
        exI [of _ ?s]) simp
qed

section \<open>Day 5 against its header comment\<close>

text \<open>
  Claim C3 describes what the header comment of Day 5 announces: the flip phase lasts
  until the repeat counter reaches the key digit. The code computes
  \<^verbatim>\<open>skip = repeat_index < digit\<close> and leaves the flip phase when that holds. On the key
  \<^verbatim>\<open>8675309\<close>, \<open>n = 1\<close> and the plaintext \<^verbatim>\<open>Hello, this a secret message :)\<close> of \<^verbatim>\<open>main\<close>
  the first execution of the body already ends the flip phase, with the repeat counter
  at 1 and the digit 8. Bytes are flipped and copied in turn up to position 9; at
  position 10 the digit is 0, the test fails for good and every later byte is flipped.
\<close>

theorem crypt_day5_leaves_flip_phase_early:
  "iter_day5 sc [0x38, 0x36, 0x37, 0x35, 0x33, 0x30, 0x39] 1
      [0x48, 0x65, 0x6C, 0x6C, 0x6F, 0x2C, 0x20, 0x74, 0x68, 0x69, 0x73, 0x20,
       0x61, 0x20, 0x73, 0x65, 0x63, 0x72, 0x65, 0x74, 0x20, 0x6D, 0x65, 0x73,
       0x73, 0x61, 0x67, 0x65, 0x20, 0x3A, 0x29] 1 =
     Inr \<lparr>ciphertext5 =
            [0x37, 0x00, 0x00, 0x00, 0x00, 0x00, 0x00, 0x00, 0x00, 0x00, 0x00, 0x00,
             0x00, 0x00, 0x00, 0x00, 0x00, 0x00, 0x00, 0x00, 0x00, 0x00, 0x00, 0x00,
             0x00, 0x00, 0x00, 0x00, 0x00, 0x00, 0x00],
          char_index = 1, repeat_index = 0, skip_index = 0, key_index = 1, skip = True\<rparr> \<and>
   crypt_day5_bytes sc [0x38, 0x36, 0x37, 0x35, 0x33, 0x30, 0x39] 1
      [0x48, 0x65, 0x6C, 0x6C, 0x6F, 0x2C, 0x20, 0x74, 0x68, 0x69, 0x73, 0x20,
       0x61, 0x20, 0x73, 0x65, 0x63, 0x72, 0x65, 0x74, 0x20, 0x6D, 0x65, 0x73,
       0x73, 0x61, 0x67, 0x65, 0x20, 0x3A, 0x29] =
     Inr [0x37, 0x65, 0x13, 0x6C, 0x10, 0x2C, 0x5F, 0x74, 0x17, 0x69, 0x0C, 0x5F,
          0x1E, 0x5F, 0x0C, 0x1A, 0x1C, 0x0D, 0x1A, 0x0B, 0x5F, 0x12, 0x1A, 0x0C,
          0x0C, 0x1E, 0x18, 0x1A, 0x5F, 0x45, 0x56]"
  by (simp add: crypt_day5_bytes_def init_day5_def loop_day5.simps body_day5_def strlen_def
      seq_def load_str_def load_def store_def calloc_def char_to_int_def int_to_char_def
      Let_def)

section \<open>The hex encoder on bytes that convert to small integers\<close>

text \<open>The two digits of a byte, the high nibble first.\<close>

definition hex_pair :: "byte \<Rightarrow> byte list" where
  "hex_pair c = [hex_digit (unat c div 16), hex_digit (unat c mod 16)]"

lemma unat_hex_digit: "d < 16 \<Longrightarrow> unat (hex_digit d) = (if d < 10 then 48 + d else 55 + d)"
  by (simp add: hex_digit_def unat_word_ariths unat_of_nat)

lemma hex_digit_nonzero: "d < 16 \<Longrightarrow> hex_digit d \<noteq> 0"
proof
  assume "d < 16" "hex_digit d = 0"
  then have "unat (hex_digit d) = 0" by simp
  with \<open>d < 16\<close> show False by (simp add: unat_hex_digit split: if_splits)
qed

lemma replicate_two: "replicate 2 x = [x, x]"
  by (simp add: numeral_2_eq_2)

lemma hex_digits_one: "0 < v \<Longrightarrow> v < 16 \<Longrightarrow> hex_digits v = [hex_digit v]"
  by (simp add: hex_digits.simps [of v] hex_digits.simps [of 0])

lemma hex_digits_two:
  "16 \<le> v \<Longrightarrow> v < 256 \<Longrightarrow> hex_digits v = [hex_digit (v div 16), hex_digit (v mod 16)]"
  by (subst hex_digits.simps) (simp add: hex_digits_one div_less_iff_less_mult)

lemma fmt_02X_small:
  assumes "unat v < 256"
  shows "fmt_02X v = [hex_digit (unat v div 16), hex_digit (unat v mod 16)]"
proof -
  consider "unat v = 0" | "0 < unat v" "unat v < 16" | "16 \<le> unat v"
    by linarith
  then show ?thesis
  proof cases
    case 1
    then show ?thesis
      by (simp add: fmt_02X_def hex_digits.simps [of 0] hex_digit_def replicate_two)
  next
    case 2
    then show ?thesis by (simp add: fmt_02X_def hex_digits_one hex_digit_def)
  next
    case 3
    then show ?thesis using assms by (simp add: fmt_02X_def hex_digits_two)
  qed
qed

lemma char_small:
  fixes c :: byte
  assumes "c < 0x80"
  shows "\<not> bit c 7"
proof -
  have "unat c < 128" using assms by (simp add: word_less_nat_alt)
  then have "\<not> bit (unat c) 7" by (simp add: bit_iff_odd)
  then show ?thesis by (simp add: bit_unsigned_iff)
qed

lemma unat_ucast_byte: "unat (ucast (c :: byte) :: cint) = unat c"
proof -
  have "unat c < 2 ^ 8" using unsigned_less [of c] by simp
  then have "unat c < 2 ^ 32" by simp
  then show ?thesis by (simp add: unsigned_ucast_eq take_bit_nat_eq_self)
qed

lemma scast_small:
  fixes c :: byte
  assumes "\<not> bit c 7"
  shows "(scast c :: cint) = ucast c"
proof -
  have high: "\<not> bit c n" if "7 \<le> n" for n
  proof
    assume "bit c n"
    then have "n < 8" using bit_imp_le_length [of c n] by simp
    with that have "n = 7" by simp
    with \<open>bit c n\<close> assms show False by simp
  qed
  show ?thesis
    by (intro bit_word_eqI) (auto simp add: bit_simps min_def high)
qed

text \<open>
  A byte converts to an integer in the range of a byte when \<^verbatim>\<open>char\<close> is unsigned, and
  when it is signed and the byte is below \<open>0x80\<close>.
\<close>

lemma unat_char_to_int:
  "\<not> sc \<or> c < 0x80 \<Longrightarrow> unat (char_to_int sc c) = unat c"
  by (auto simp add: char_to_int_def unat_ucast_byte scast_small char_small)

lemma fmt_02X_char:
  assumes "\<not> sc \<or> c < 0x80"
  shows "fmt_02X (char_to_int sc c) = hex_pair c"
proof -
  have "unat c < 2 ^ 8" using unsigned_less [of c] by simp
  then show ?thesis
    using assms by (simp add: fmt_02X_small unat_char_to_int hex_pair_def)
qed

lemma write_bytes_append:
  "length cs \<le> length ys \<Longrightarrow>
   write_bytes (xs @ ys) (int (length xs)) cs = Inr (xs @ cs @ drop (length cs) ys)"
proof (induction cs arbitrary: xs ys)
  case Nil
  then show ?case by simp
next
  case (Cons c cs)
  then obtain y ys' where ys: "ys = y # ys'" by (cases ys) auto
  have "write_bytes ((xs @ [c]) @ ys') (int (length (xs @ [c]))) cs =
      Inr ((xs @ [c]) @ cs @ drop (length cs) ys')"
    using Cons.prems ys by (intro Cons.IH) simp
  then show ?case
    using ys by (simp add: store_def add.commute)
qed

lemma sprintf_02X_step:
  assumes "\<not> sc \<or> c < 0x80" "length xs = 2 * i" "3 \<le> m"
  shows "sprintf_02X (xs @ replicate m 0) (2 * int i) (char_to_int sc c) =
    Inr (xs @ hex_pair c @ replicate (m - 2) 0)"
proof -
  have "write_bytes (xs @ replicate m 0) (int (length xs)) (hex_pair c @ [0]) =
      Inr (xs @ (hex_pair c @ [0]) @ drop (length (hex_pair c @ [0])) (replicate m 0))"
    using assms(3) by (intro write_bytes_append) (simp add: hex_pair_def)
  moreover obtain k where "m = Suc (Suc (Suc k))"
    using assms(3) by (metis le_Suc_ex numeral_3_eq_3 plus_nat.simps(2))
  ultimately show ?thesis
    using assms(1,2) by (simp add: sprintf_02X_def fmt_02X_char hex_pair_def)
qed

lemma charToHex_loop_run:
  assumes "\<forall>c \<in> set ciphertext. \<not> sc \<or> c < 0x80" "i \<le> length ciphertext"
  shows "charToHex_loop sc ciphertext (length ciphertext) i
      (concat (map hex_pair (take i ciphertext)) @
       replicate (2 * (length ciphertext - i) + 1) 0) =
    Inr (concat (map hex_pair ciphertext) @ [0])"
  using assms(2)
proof (induction "length ciphertext - i" arbitrary: i)
  case 0
  then show ?case by (subst charToHex_loop.simps) simp
next
  case (Suc d)
  then have i: "i < length ciphertext" by simp
  let ?xs = "concat (map hex_pair (take i ciphertext))"
  have len: "length ?xs = 2 * i"
    using i by (induction ciphertext arbitrary: i) (auto simp: hex_pair_def take_Cons' )
  have ok: "\<not> sc \<or> ciphertext ! i < 0x80"
    using assms(1) i by auto
  have step: "sprintf_02X (?xs @ replicate (2 * (length ciphertext - i) + 1) 0) (2 * int i)
      (char_to_int sc (ciphertext ! i)) =
    Inr (?xs @ hex_pair (ciphertext ! i) @ replicate (2 * (length ciphertext - i) + 1 - 2) 0)"
    using ok len i by (intro sprintf_02X_step) simp_all
  have next_buf: "?xs @ hex_pair (ciphertext ! i) @
      replicate (2 * (length ciphertext - i) + 1 - 2) 0 =
    concat (map hex_pair (take (Suc i) ciphertext)) @
      replicate (2 * (length ciphertext - Suc i) + 1) 0"
  proof -
    have "2 * (length ciphertext - i) + 1 - 2 = 2 * (length ciphertext - Suc i) + 1"
      using i by simp
    then show ?thesis using i by (simp add: take_Suc_conv_app_nth)
  qed
  have "charToHex_loop sc ciphertext (length ciphertext) (Suc i)
      (concat (map hex_pair (take (Suc i) ciphertext)) @
       replicate (2 * (length ciphertext - Suc i) + 1) 0) =
    Inr (concat (map hex_pair ciphertext) @ [0])"
    using Suc.hyps(2) i by (intro Suc.hyps(1)) simp_all
  then show ?case
    using i step next_buf by (subst charToHex_loop.simps) (simp add: load_def)
qed

lemma charToHex_loop_ok:
  assumes "\<forall>c \<in> set ciphertext. \<not> sc \<or> c < 0x80"
  shows "charToHex_loop sc ciphertext (length ciphertext) 0 (calloc (2 * length ciphertext + 1)) =
    Inr (concat (map hex_pair ciphertext) @ [0])"
  using charToHex_loop_run [OF assms, of 0] by (simp add: calloc_def)

lemma length_hex: "length (concat (map hex_pair cs)) = 2 * length cs"
  by (induction cs) (simp_all add: hex_pair_def)

lemma hex_nonzero: "0 \<notin> set (concat (map hex_pair cs))"
proof -
  have "unat c div 16 < 16" for c :: byte
    using unsigned_less [of c, where ?'a = nat] by (simp add: div_less_iff_less_mult)
  then have "hex_digit (unat c div 16) \<noteq> 0" "hex_digit (unat c mod 16) \<noteq> 0" for c :: byte
    by (simp_all add: hex_digit_nonzero)
  then show ?thesis
    by (auto simp add: hex_pair_def)
qed

lemma string_of_terminated: "0 \<notin> set xs \<Longrightarrow> string_of (xs @ [0]) = Inr xs"
  by (induction xs) (auto simp add: string_of_def)


text \<open>
  Where every byte converts to an integer in the range of a byte, the encoder returns
  two digits for each byte, in the order of the input, and a terminator.
\<close>

lemma charToHex_ok:
  assumes "\<forall>c \<in> set ciphertext. \<not> sc \<or> c < 0x80"
  shows "charToHex sc ciphertext (length ciphertext) =
    Inr (concat (map hex_pair ciphertext) @ [0])"
  using charToHex_loop_ok [OF assms] by (simp add: charToHex_def)

text \<open>
  Claim C4 asks for two digits for every byte. Where \<^verbatim>\<open>char\<close> is signed, a byte from
  \<open>0x80\<close> on converts to a negative \<^verbatim>\<open>int\<close>, which \<^verbatim>\<open>%02X\<close> prints with eight digits:
  for the one byte \<open>0x80\<close> the digits \<^verbatim>\<open>FFFFFF80\<close> and their terminator do not fit the
  three bytes of the buffer, and in front of three more bytes the byte \<open>0x80\<close> is left
  as \<^verbatim>\<open>FF\<close>. Where \<^verbatim>\<open>char\<close> is unsigned the same byte gives \<^verbatim>\<open>80\<close>.
\<close>

theorem charToHex_signed_high_byte:
  "charToHex True [0x80] 1 = Inl (BadWrite 3) \<and>
   charToHex True [0x80, 0x41, 0x41, 0x41] 4 =
     Inr [0x46, 0x46, 0x34, 0x31, 0x34, 0x31, 0x34, 0x31, 0] \<and>
   charToHex False [0x80] 1 = Inr [0x38, 0x30, 0]"
  apply (simp add: charToHex_def charToHex_loop.simps load_def sprintf_02X_def fmt_02X_def
      char_to_int_def hex_digits.simps hex_digit_def calloc_def store_def)
  apply (simp add: eval_nat_numeral)
  done

section \<open>The reverser\<close>

lemma heap_load_in:
  "p < length h \<Longrightarrow> i < length (h ! p) \<Longrightarrow> heap_load h p (int i) = Inr (h ! p ! i)"
  by (simp add: heap_load_def load_def)

lemma heap_store_in:
  "p < length h \<Longrightarrow> i < length (h ! p) \<Longrightarrow>
   heap_store h p (int i) v = Inr (h[p := (h ! p)[i := v]])"
  by (simp add: heap_store_def store_def)

text \<open>
  The loop from its \<open>i\<close>-th round on, in a heap where the result object holds the first
  \<open>i\<close> elements already: it changes the result object and nothing else.
\<close>

lemma rev_loop_run:
  assumes "input < length h" "retval < length h" "input \<noteq> retval"
    and "length (h ! input) = len" "i + 1 \<le> len"
    and "h ! retval = map (\<lambda>j. h ! input ! (len - 2 - j)) [0..<i] @ replicate (len - i) 0"
  shows "rev_loop h input len retval i =
    Inr (h[retval := map (\<lambda>j. h ! input ! (len - 2 - j)) [0..<len - 1] @ [0]])"
  using assms
proof (induction "len - 1 - i" arbitrary: i h)
  case 0
  then have i: "i = len - 1" by simp
  then have "h ! retval = map (\<lambda>j. h ! input ! (len - 2 - j)) [0..<len - 1] @ [0]"
    using "0.prems"(5,6) by simp
  then have "h[retval := map (\<lambda>j. h ! input ! (len - 2 - j)) [0..<len - 1] @ [0]] = h"
    by (metis list_update_id)
  then show ?case
    using i "0.prems"(5) by (subst rev_loop.simps) simp
next
  case (Suc d)
  let ?f = "\<lambda>j. h ! input ! (len - 2 - j)"
  have i: "i < len - 1" using Suc.hyps(2) by simp
  then have guard: "int i < int len - 1" by linarith
  have idx: "int len - 2 - int i = int (len - 2 - i)" using i by linarith
  have ld: "heap_load h input (int len - 2 - int i) = Inr (?f i)"
    unfolding idx using Suc.prems(1,4) i by (intro heap_load_in) simp_all
  let ?obj = "(h ! retval)[i := ?f i]"
  let ?h = "h[retval := ?obj]"
  have st: "heap_store h retval (int i) (?f i) = Inr ?h"
    using Suc.prems(2,6) i by (intro heap_store_in) simp_all
  have same: "?h ! input = h ! input"
    using Suc.prems(3) by simp
  have obj: "?obj = map ?f [0..<Suc i] @ replicate (len - Suc i) 0"
    unfolding Suc.prems(6) using i by (intro map_upt_update) simp
  have "rev_loop ?h input len retval (Suc i) =
      Inr (?h[retval := map (\<lambda>j. ?h ! input ! (len - 2 - j)) [0..<len - 1] @ [0]])"
  proof (rule Suc.hyps(1))
    show "d = len - 1 - Suc i" using Suc.hyps(2) by simp
    show "input < length ?h" "retval < length ?h" "input \<noteq> retval"
      using Suc.prems(1,2,3) by simp_all
    show "length (?h ! input) = len" using same Suc.prems(4) by simp
    show "Suc i + 1 \<le> len" using i by simp
    show "?h ! retval = map (\<lambda>j. ?h ! input ! (len - 2 - j)) [0..<Suc i] @
        replicate (len - Suc i) 0"
      using Suc.prems(2) obj same by simp
  qed
  then have "rev_loop ?h input len retval (Suc i) =
      Inr (h[retval := map ?f [0..<len - 1] @ [0]])"
    by (simp only: same list_update_overwrite)
  then show ?case
    using guard ld st by (subst rev_loop.simps) simp
qed

lemma map_rev_index:
  assumes "length xs = len" "1 \<le> len"
  shows "map (\<lambda>j. xs ! (len - 2 - j)) [0..<len - 1] = rev (butlast xs)"
proof (rule nth_equalityI)
  show "length (map (\<lambda>j. xs ! (len - 2 - j)) [0..<len - 1]) = length (rev (butlast xs))"
    using assms by simp
next
  fix i
  assume "i < length (map (\<lambda>j. xs ! (len - 2 - j)) [0..<len - 1])"
  then have i: "i < len - 1" by simp
  then have "rev (butlast xs) ! i = butlast xs ! (len - 1 - Suc i)"
    using assms by (simp add: rev_nth)
  also have "\<dots> = xs ! (len - 2 - i)"
    using assms i by (simp add: nth_butlast)
  finally show "map (\<lambda>j. xs ! (len - 2 - j)) [0..<len - 1] ! i = rev (butlast xs) ! i"
    using i by simp
qed

text \<open>
  \<^verbatim>\<open>rev\<close> on an object of \<open>len\<close> bytes: the heap grows by one object, which holds the
  bytes of the input in front of its last one, in reverse order, and the zero byte
  that \<^verbatim>\<open>calloc\<close> left behind them.
\<close>

lemma rev_c_eq:
  assumes "input < length h" "length (h ! input) = len" "1 \<le> len"
  shows "rev_c h input len = Inr (h @ [rev (butlast (h ! input)) @ [0]], length h)"
proof -
  let ?h0 = "h @ [calloc len]"
  have same: "?h0 ! input = h ! input"
    using assms(1) by (simp add: nth_append)
  have "rev_loop ?h0 input len (length h) 0 =
      Inr (?h0[length h := map (\<lambda>j. ?h0 ! input ! (len - 2 - j)) [0..<len - 1] @ [0]])"
    using assms by (intro rev_loop_run) (simp_all add: nth_append calloc_def)
  moreover have "map (\<lambda>j. ?h0 ! input ! (len - 2 - j)) [0..<len - 1] =
      rev (butlast (h ! input))"
    unfolding same using assms(2,3) by (rule map_rev_index)
  ultimately have "rev_loop ?h0 input len (length h) 0 =
      Inr (h @ [rev (butlast (h ! input)) @ [0]])"
    by (simp only: list_update_length)
  then show ?thesis
    by (simp add: rev_c_def heap_calloc_def seq_def)
qed

text \<open>
  Claim C7. Called on an object of \<open>L \<ge> 1\<close> bytes, \<^verbatim>\<open>rev\<close> returns a pointer to a new
  object, behind the objects of the heap it was given, and leaves each of those, the
  input among them, as it was. The new object holds \<open>L - 1\<close> elements, the one at
  position \<open>i\<close> being the input element at position \<open>L - 2 - i\<close>, that is the input without
  its last element in reverse order; behind them lies the one zero byte left of the
  \<open>L\<close> that \<^verbatim>\<open>calloc\<close> gave, so that the sequence read as a string ends there.
\<close>

theorem rev_c_reverses:
  assumes "input < length h" "length (h ! input) = L" "1 \<le> L"
  shows "\<exists>h' out. rev_c h input L = Inr (h', length h) \<and> length h' = length h + 1 \<and>
    (\<forall>p < length h. h' ! p = h ! p) \<and> h' ! input = h ! input \<and>
    h' ! length h = out @ [0] \<and> length out = L - 1 \<and>
    (\<forall>i < L - 1. out ! i = h ! input ! (L - 2 - i)) \<and>
    out = rev (butlast (h ! input))"
proof -
  let ?out = "rev (butlast (h ! input))"
  have run: "rev_c h input L = Inr (h @ [?out @ [0]], length h)"
    using assms by (rule rev_c_eq)
  have "\<forall>i < L - 1. ?out ! i = h ! input ! (L - 2 - i)"
  proof (intro allI impI)
    fix i
    assume i: "i < L - 1"
    have "map (\<lambda>j. h ! input ! (L - 2 - j)) [0..<L - 1] ! i = ?out ! i"
      using assms(2,3) by (simp only: map_rev_index)
    then show "?out ! i = h ! input ! (L - 2 - i)" using i by simp
  qed
  then show ?thesis
    using run assms by (simp add: nth_append)
qed

text \<open>The object \<open>1 2 3 4\<close>, alone on the heap, gives the new object \<open>3 2 1 0\<close>.\<close>

theorem rev_c_reverses_witness:
  "(0::nat) < length [[1, 2, 3, 4 :: byte]] \<and> length ([[1, 2, 3, 4 :: byte]] ! 0) = 4 \<and>
   (1::nat) \<le> 4 \<and>
   rev_c [[1, 2, 3, 4]] 0 4 = Inr ([[1, 2, 3, 4], [3, 2, 1, 0]], 1)"
proof -
  have "\<exists>h' out. rev_c [[1, 2, 3, 4]] 0 4 = Inr (h', length [[1, 2, 3, 4 :: byte]]) \<and>
      length h' = length [[1, 2, 3, 4 :: byte]] + 1 \<and>
      (\<forall>p < length [[1, 2, 3, 4 :: byte]]. h' ! p = [[1, 2, 3, 4]] ! p) \<and>
      h' ! 0 = [[1, 2, 3, 4]] ! 0 \<and>
      h' ! length [[1, 2, 3, 4 :: byte]] = out @ [0] \<and> length out = 4 - 1 \<and>
      (\<forall>i < 4 - 1. out ! i = [[1, 2, 3, 4]] ! 0 ! (4 - 2 - i)) \<and>
      out = rev (butlast ([[1, 2, 3, 4]] ! 0))"
    by (rule rev_c_reverses) simp_all
  then obtain h' where "rev_c [[1, 2, 3, 4]] 0 4 = Inr (h', 1)" "length h' = 2"
    "h' ! 0 = [1, 2, 3, 4]" "h' ! 1 = [3, 2, 1, 0]"
    by auto
  moreover from this have "h' = [[1, 2, 3, 4], [3, 2, 1, 0]]"
    by (intro nth_equalityI) (auto simp add: less_Suc_eq numeral_2_eq_2)
  ultimately show ?thesis by simp
qed

section \<open>Day 5 from the plaintext to the printed string\<close>

lemma charToHex_day5_ok:
  assumes "\<forall>c \<in> set ciphertext. \<not> sc \<or> c < 0x80"
  shows "charToHex_day5 sc ciphertext (length ciphertext) =
    Inr (rev (concat (map hex_pair ciphertext)) @ [0])"
proof -
  let ?hex = "concat (map hex_pair ciphertext)"
  have "rev_c [?hex @ [0]] 0 (2 * length ciphertext + 1) =
      Inr ([?hex @ [0]] @ [rev (butlast ([?hex @ [0]] ! 0)) @ [0]], length [?hex @ [0]])"
    by (rule rev_c_eq) (simp_all add: length_hex)
  then show ?thesis
    using charToHex_loop_ok [OF assms] by (simp add: charToHex_day5_def seq_def)
qed

lemma small_iff_bit: "c < 0x80 \<longleftrightarrow> \<not> bit (c :: byte) 7"
proof
  assume "\<not> bit c 7"
  then have "\<not> bit (unat c) 7" by (simp add: bit_unsigned_iff)
  then have even: "even (unat c div 128)" by (simp add: bit_iff_odd)
  have "unat c < 2 ^ 8" using unsigned_less [of c] by simp
  then have "unat c div 128 < 2" by (simp add: div_less_iff_less_mult)
  with even have "unat c div 128 = 0"
    by (cases "unat c div 128") auto
  then have "unat c < 128" by (simp add: div_eq_0_iff)
  then show "c < 0x80" by (simp add: word_less_nat_alt)
qed (rule char_small)

lemma flip_small: "c < 0x80 \<Longrightarrow> c XOR 127 < (0x80 :: byte)"
  by (simp add: small_iff_bit bit_simps)

text \<open>The run of the loop on a non-empty plaintext.\<close>

lemma crypt_day5_bytes_run:
  assumes "0 < strlen plaintext"
  shows "\<exists>out. crypt_day5_bytes sc key n plaintext = Inr out \<and> length out = strlen plaintext \<and>
    (\<forall>i < strlen plaintext. out ! i = plaintext ! i \<or> out ! i = plaintext ! i XOR 127)"
proof -
  obtain sk where sk: "iter_day5 sc key n plaintext (strlen plaintext) = Inr sk"
    "length (ciphertext5 sk) = strlen plaintext"
    using iter_day5_inv [of "strlen plaintext" plaintext sc key n] by auto
  have out: "crypt_day5_bytes sc key n plaintext = Inr (ciphertext5 sk)"
    using assms sk(1) by (simp add: crypt_day5_bytes_iter seq_def)
  have "ciphertext5 sk ! i = plaintext ! i \<or> ciphertext5 sk ! i = plaintext ! i XOR 127"
    if lt: "i < strlen plaintext" for i
  proof -
    obtain s where s: "iter_day5 sc key n plaintext i = Inr s"
      using iter_day5_inv [OF less_imp_le [OF lt], of sc key n] by auto
    have "ciphertext5 sk ! i = (if skip s then plaintext ! i else plaintext ! i XOR 127)"
      using lt s sk(1) by (intro iter_day5_byte) simp_all
    then show ?thesis by auto
  qed
  with out sk(2) show ?thesis by simp
qed

text \<open>
  Claim C5, amended. For a non-empty plaintext whose bytes are below \<open>0x80\<close>, or any
  non-empty plaintext where \<^verbatim>\<open>char\<close> is unsigned, Day 5 returns the hex encoding of the
  transformed bytes reversed as a whole: \<^verbatim>\<open>rev\<close> is called on the \<open>2 * len + 1\<close> bytes of the
  terminated hex string, so the element it leaves out is the terminator, and the string
  returned has \<open>2 * len\<close> characters.
\<close>

theorem crypt_day5_output:
  assumes "0 < strlen plaintext"
    and "\<not> sc \<or> (\<forall>i < strlen plaintext. plaintext ! i < 0x80)"
  shows "\<exists>out obj. crypt_day5_bytes sc key n plaintext = Inr out \<and>
    crypt_day5 sc key n plaintext = Inr obj \<and>
    string_of obj = Inr (rev (concat (map hex_pair out))) \<and>
    length (rev (concat (map hex_pair out))) = 2 * strlen plaintext"
proof -
  obtain out where out: "crypt_day5_bytes sc key n plaintext = Inr out"
    "length out = strlen plaintext"
    "\<forall>i < strlen plaintext. out ! i = plaintext ! i \<or> out ! i = plaintext ! i XOR 127"
    using crypt_day5_bytes_run [OF assms(1)] by blast
  have good: "\<forall>c \<in> set out. \<not> sc \<or> c < 0x80"
  proof (cases sc)
    case False
    then show ?thesis by simp
  next
    case True
    have "out ! i < 0x80" if "i < length out" for i
    proof -
      have "plaintext ! i < 0x80" using assms(2) True that out(2) by simp
      moreover have "out ! i = plaintext ! i \<or> out ! i = plaintext ! i XOR 127"
        using out(2,3) that by simp
      ultimately show ?thesis using flip_small [of "plaintext ! i"] by auto
    qed
    then show ?thesis by (auto simp add: in_set_conv_nth)
  qed
  let ?hex = "concat (map hex_pair out)"
  have "charToHex_day5 sc out (length out) = Inr (rev ?hex @ [0])"
    using good by (rule charToHex_day5_ok)
  then have "crypt_day5 sc key n plaintext = Inr (rev ?hex @ [0])"
    using out(1,2) by (simp add: crypt_day5_def seq_def)
  moreover have "string_of (rev ?hex @ [0]) = Inr (rev ?hex)"
    using hex_nonzero [of out] by (intro string_of_terminated) simp
  ultimately show ?thesis
    using out(1,2) by (simp add: length_hex)
qed

text \<open>
  The key \<^verbatim>\<open>8\<close>, \<open>n = 1\<close> and the plaintext \<^verbatim>\<open>Hi\<close>: the bytes \<open>37 69\<close>, in hex \<^verbatim>\<open>3769\<close>,
  come out as the four characters \<^verbatim>\<open>9673\<close>.
\<close>

theorem crypt_day5_output_witness:
  "0 < strlen [0x48, 0x69] \<and> (0x48 :: byte) < 0x80 \<and> (0x69 :: byte) < 0x80 \<and>
   (\<exists>out obj. crypt_day5_bytes True [0x38] 1 [0x48, 0x69] = Inr out \<and>
      crypt_day5 True [0x38] 1 [0x48, 0x69] = Inr obj \<and>
      string_of obj = Inr (rev (concat (map hex_pair out))) \<and>
      length (rev (concat (map hex_pair out))) = 2 * strlen [0x48, 0x69])"
proof -
  have len: "strlen [0x48, 0x69] = 2" by (simp add: strlen_def)
  have h1: "0 < strlen [0x48, 0x69]" by (simp add: len)
  have small: "(0x48 :: byte) < 0x80" "(0x69 :: byte) < 0x80" by simp_all
  have "\<forall>i < strlen [0x48, 0x69]. [0x48, 0x69 :: byte] ! i < 0x80"
    unfolding len
  proof (intro allI impI)
    fix i :: nat
    assume "i < 2"
    then consider "i = 0" | "i = 1" by linarith
    then show "[0x48, 0x69 :: byte] ! i < 0x80" using small by cases simp_all
  qed
  then have "\<not> True \<or> (\<forall>i < strlen [0x48, 0x69]. [0x48, 0x69 :: byte] ! i < 0x80)" ..
  from crypt_day5_output [OF h1 this, of "[0x38]" 1] h1 small show ?thesis
    by blast
qed

text \<open>
  Claim C5 as stated fails there: the string returned has four characters, not
  \<open>2 * 2 - 2\<close>.
\<close>

theorem crypt_day5_output_not_truncated:
  "crypt_day5 True [0x38] 1 [0x48, 0x69] = Inr [0x39, 0x36, 0x37, 0x33, 0] \<and>
   string_of [0x39, 0x36, 0x37, 0x33, 0] = Inr [0x39, 0x36, 0x37, 0x33] \<and>
   length [0x39, 0x36, 0x37, 0x33 :: byte] \<noteq> 2 * strlen [0x48, 0x69] - 2"
  apply (simp add: crypt_day5_def crypt_day5_bytes_def init_day5_def loop_day5.simps
      body_day5_def strlen_def seq_def load_str_def load_def store_def calloc_def
      char_to_int_def int_to_char_def Let_def string_of_def
      charToHex_day5_def charToHex_loop.simps sprintf_02X_def fmt_02X_def
      hex_digits.simps hex_digit_def rev_c_def heap_calloc_def rev_loop.simps
      heap_load_def heap_store_def)
  apply (simp add: eval_nat_numeral)
  done


section \<open>Empty inputs\<close>

lemma store_empty: "store (calloc (strlen [])) 0 v = Inl (BadWrite 0)"
  by (simp add: store_def calloc_def strlen_def)

lemma map_nth_take: "n \<le> length xs \<Longrightarrow> map (\<lambda>i. f (xs ! i)) [0..<n] = map f (take n xs)"
  by (intro nth_equalityI) simp_all

text \<open>
  Day 1 with the empty key: \<^verbatim>\<open>k_char\<close> is the terminator, no bit of which is set, so
  the bytes are copied, and the key index stays 0 for six executions of the body.
\<close>

lemma iter_day1_empty_key:
  assumes "t \<le> strlen plaintext" "t \<le> 6"
  shows "iter_day1 sc [] plaintext t =
    Inr \<lparr>ciphertext1 = map (\<lambda>i. plaintext ! i) [0..<t] @ replicate (strlen plaintext - t) 0,
         k_char = 0, k_index = 0, k_bit_index = t, t_index = t\<rparr>"
  using assms
proof (induction t)
  case 0
  show ?case by (simp add: init_day1_eq calloc_def)
next
  case (Suc t)
  then have t: "t < strlen plaintext" "t < 6" by simp_all
  have ld: "load_str plaintext (int t) = Inr (plaintext ! t)"
    using t(1) by (rule load_str_in)
  have st: "store (map (\<lambda>i. plaintext ! i) [0..<t] @ replicate (strlen plaintext - t) 0)
      (int t) (plaintext ! t) =
    Inr (map (\<lambda>i. plaintext ! i) [0..<Suc t] @ replicate (strlen plaintext - Suc t) 0)"
    using t(1) map_upt_update [of t "strlen plaintext" "\<lambda>i. plaintext ! i" 0]
    by (simp add: store_in)
  have "iter_day1 sc [] plaintext t =
    Inr \<lparr>ciphertext1 = map (\<lambda>i. plaintext ! i) [0..<t] @ replicate (strlen plaintext - t) 0,
         k_char = 0, k_index = 0, k_bit_index = t, t_index = t\<rparr>"
    using Suc by simp
  then show ?case
    using t(2) ld st
    by (simp add: body_day1_def seq_def char_to_int_def load_str_def [of "[]"] load_def
        strlen_def [of "[]"] del: upt_Suc)
qed

text \<open>
  The seventh execution moves the key index to 1, which the test against the length 0
  does not reset, and reads \<^verbatim>\<open>key[1]\<close> behind the terminator.
\<close>

lemma iter_day1_empty_key_7:
  assumes "7 \<le> strlen plaintext"
  shows "iter_day1 sc [] plaintext 7 = Inl (BadRead 1)"
proof -
  have six: "iter_day1 sc [] plaintext 6 =
    Inr \<lparr>ciphertext1 = map (\<lambda>i. plaintext ! i) [0..<6] @ replicate (strlen plaintext - 6) 0,
         k_char = 0, k_index = 0, k_bit_index = 6, t_index = 6\<rparr>"
    using assms by (intro iter_day1_empty_key) simp_all
  have ld: "load_str plaintext (int 6) = Inr (plaintext ! 6)"
    using assms by (intro load_str_in) simp
  have st: "\<exists>buf. store (map (\<lambda>i. plaintext ! i) [0..<6] @ replicate (strlen plaintext - 6) 0)
      (int 6) (plaintext ! 6) = Inr buf"
    using assms by (simp add: store_def)
  have "iter_day1 sc [] plaintext (Suc 6) = Inl (BadRead 1)"
    using ld st unfolding iter_day1.simps six
    by (auto simp add: body_day1_def seq_def char_to_int_def load_str_def [of "[]"] load_def
        strlen_def [of "[]"] simp del: upt_Suc)
  then show ?thesis by simp
qed

lemma crypt_day1_bytes_empty_key:
  "crypt_day1_bytes sc [] plaintext =
    (if strlen plaintext = 0 then Inl (BadWrite 0)
     else if strlen plaintext < 7 then Inr (take (strlen plaintext) plaintext)
     else Inl (BadRead 1))"
proof -
  consider "strlen plaintext = 0" | "0 < strlen plaintext" "strlen plaintext < 7"
    | "7 \<le> strlen plaintext"
    by linarith
  then show ?thesis
  proof cases
    case 1
    have "store (calloc (strlen plaintext)) 0 v = Inl (BadWrite 0)" for v
      using 1 by (simp add: store_def calloc_def)
    then have "body_day1 sc [] plaintext s = Inl (BadWrite 0)"
      if "ciphertext1 s = calloc (strlen plaintext)" "t_index s = 0" "k_index s = 0" for s
      using that
      by (simp add: body_day1_def seq_def load_str_def load_def)
    then show ?thesis
      using 1 by (simp add: crypt_day1_bytes_def init_day1_eq seq_def loop_day1.simps)
  next
    case 2
    obtain s0 where s0: "iter_day1 sc [] plaintext 0 = Inr s0"
      by (simp add: init_day1_eq)
    then have "loop_day1 sc [] plaintext s0 = iter_day1 sc [] plaintext (strlen plaintext)"
      using 2(1) by (rule loop_day1_iter)
    moreover have "map (\<lambda>i. plaintext ! i) [0..<strlen plaintext] =
        take (strlen plaintext) plaintext"
      using map_nth_take [of "strlen plaintext" plaintext "\<lambda>c. c"] strlen_le [of plaintext]
      by simp
    ultimately show ?thesis
      using s0 2 iter_day1_empty_key [of "strlen plaintext" plaintext sc]
      by (simp add: crypt_day1_bytes_def seq_def)
  next
    case 3
    obtain s0 where s0: "iter_day1 sc [] plaintext 0 = Inr s0"
      by (simp add: init_day1_eq)
    moreover have "0 < strlen plaintext" using 3 by simp
    ultimately have "loop_day1 sc [] plaintext s0 =
        iter_day1 sc [] plaintext (strlen plaintext)"
      by (rule loop_day1_iter)
    moreover have "iter_day1 sc [] plaintext (7 + (strlen plaintext - 7)) = Inl (BadRead 1)"
      using 3 by (intro iter_day1_fault iter_day1_empty_key_7)
    ultimately show ?thesis
      using s0 3 by (simp add: crypt_day1_bytes_def seq_def)
  qed
qed

text \<open>
  Day 5 with the empty key: every key read finds the terminator, the digit is \<open>-48\<close>,
  and every byte is flipped.
\<close>

lemma iter_day5_empty_key:
  assumes "t \<le> strlen plaintext"
  shows "iter_day5 sc [] n plaintext t =
    Inr \<lparr>ciphertext5 = map (\<lambda>i. plaintext ! i XOR 127) [0..<t] @
            replicate (strlen plaintext - t) 0,
         char_index = t, repeat_index = t, skip_index = 0, key_index = 0, skip = False\<rparr>"
  using assms
proof (induction t)
  case 0
  show ?case by (simp add: init_day5_def calloc_def)
next
  case (Suc t)
  then have t: "t < strlen plaintext" by simp
  have ld: "load_str plaintext (int t) = Inr (plaintext ! t)"
    using t by (rule load_str_in)
  have st: "store (map (\<lambda>i. plaintext ! i XOR 127) [0..<t] @ replicate (strlen plaintext - t) 0)
      (int t) (plaintext ! t XOR 127) =
    Inr (map (\<lambda>i. plaintext ! i XOR 127) [0..<Suc t] @ replicate (strlen plaintext - Suc t) 0)"
    using t map_upt_update [of t "strlen plaintext" "\<lambda>i. plaintext ! i XOR 127" 0]
    by (simp add: store_in)
  have wr: "int_to_char (char_to_int sc c XOR 127) = c XOR 127" for c
    by (simp add: int_to_char_xor int_to_char_of_char int_to_char_127)
  have "iter_day5 sc [] n plaintext t =
    Inr \<lparr>ciphertext5 = map (\<lambda>i. plaintext ! i XOR 127) [0..<t] @
            replicate (strlen plaintext - t) 0,
         char_index = t, repeat_index = t, skip_index = 0, key_index = 0, skip = False\<rparr>"
    using Suc by simp
  then show ?case
    using ld st
    by (simp add: body_day5_def seq_def wr sint_char_to_int_0 load_str_def [of "[]"] load_def
        del: upt_Suc)
qed

lemma crypt_day5_bytes_empty_key:
  "crypt_day5_bytes sc [] n plaintext =
    (if strlen plaintext = 0 then Inl (BadWrite 0)
     else Inr (map (\<lambda>c. c XOR 127) (take (strlen plaintext) plaintext)))"
proof (cases "strlen plaintext = 0")
  case True
  have "store (calloc (strlen plaintext)) 0 v = Inl (BadWrite 0)" for v
    using True by (simp add: store_def calloc_def)
  then have "body_day5 sc [] n plaintext (init_day5 plaintext) = Inl (BadWrite 0)"
    by (simp add: body_day5_def init_day5_def seq_def load_str_def load_def)
  then show ?thesis
    using True by (simp add: crypt_day5_bytes_def seq_def loop_day5.simps)
next
  case False
  then have pos: "0 < strlen plaintext" by simp
  have "map (\<lambda>i. plaintext ! i XOR 127) [0..<strlen plaintext] =
      map (\<lambda>c. c XOR 127) (take (strlen plaintext) plaintext)"
    using strlen_le [of plaintext] by (rule map_nth_take)
  then show ?thesis
    using False iter_day5_empty_key [of "strlen plaintext" plaintext sc n]
    by (simp add: crypt_day5_bytes_iter [OF pos] seq_def)
qed


text \<open>
  Claim C9, amended. With an empty plaintext each of the three transforms, whatever
  its key, executes the body of its do-while loop once: the read of \<^verbatim>\<open>plaintext[0]\<close>
  finds the terminator, and the write of \<^verbatim>\<open>ciphertext[0]\<close> lies outside the buffer of
  no bytes. In Day 3 this is for parameters that are values of \<^verbatim>\<open>int\<close> with \<open>p + q\<close> and
  \<open>p - 1\<close> in its range as well, and the remainder by \<open>p + q\<close> comes first and is the fault
  when \<open>p + q\<close> is zero. With an empty key, Day 1 reads \<^verbatim>\<open>key[1]\<close>, behind the terminator
  of the key, when the plaintext has seven bytes or more; on a shorter plaintext
  that is not empty its loop returns the plaintext bytes, and the loop of Day 5 returns
  every byte of a plaintext that is not empty flipped, both without a fault.
\<close>

theorem crypt_empty_inputs:
  assumes "int_range p" "int_range q" "int_range (p + q)" "int_range (p - 1)"
  shows "load_str [] 0 = Inr 0 \<and>
    crypt_day1 sc key [] = Inl (BadWrite 0) \<and>
    crypt_day3 sc p q [] = (if p + q = 0 then Inl DivByZero else Inl (BadWrite 0)) \<and>
    crypt_day5 sc key n [] = Inl (BadWrite 0) \<and>
    crypt_day1_bytes sc [] plaintext =
      (if strlen plaintext = 0 then Inl (BadWrite 0)
       else if strlen plaintext < 7 then Inr (take (strlen plaintext) plaintext)
       else Inl (BadRead 1)) \<and>
    crypt_day1 sc [] plaintext =
      (if strlen plaintext = 0 then Inl (BadWrite 0)
       else if strlen plaintext < 7
         then charToHex sc (take (strlen plaintext) plaintext) (strlen plaintext)
       else Inl (BadRead 1)) \<and>
    crypt_day5_bytes sc [] n plaintext =
      (if strlen plaintext = 0 then Inl (BadWrite 0)
       else Inr (map (\<lambda>c. c XOR 127) (take (strlen plaintext) plaintext)))"
proof -
  have ld: "load_str [] 0 = Inr 0"
    by (simp add: load_str_def load_def)
  have "body_day1 sc key [] s = Inl (BadWrite 0)"
    if "ciphertext1 s = calloc (strlen [])" "t_index s = 0" "k_index s = 0" for s
    using that
    by (simp add: body_day1_def seq_def ld store_empty load_str_def [of key] load_def)
  then have day1: "crypt_day1 sc key [] = Inl (BadWrite 0)"
    by (simp add: crypt_day1_def crypt_day1_bytes_def init_day1_eq seq_def loop_day1.simps)
  have "body_day3 sc p q [] (init_day3 []) =
      (if p + q = 0 then Inl DivByZero else Inl (BadWrite 0))"
    by (simp add: body_day3_def init_day3_def seq_def ld store_empty c_rem_def)
  then have day3: "crypt_day3 sc p q [] =
      (if p + q = 0 then Inl DivByZero else Inl (BadWrite 0))"
    by (simp add: crypt_day3_def crypt_day3_bytes_def seq_def loop_day3.simps)
  have "body_day5 sc key n [] (init_day5 []) = Inl (BadWrite 0)"
    by (simp add: body_day5_def init_day5_def seq_def ld store_empty)
  then have day5: "crypt_day5 sc key n [] = Inl (BadWrite 0)"
    by (simp add: crypt_day5_def crypt_day5_bytes_def seq_def loop_day5.simps)
  have key1: "crypt_day1 sc [] plaintext =
      (if strlen plaintext = 0 then Inl (BadWrite 0)
       else if strlen plaintext < 7
         then charToHex sc (take (strlen plaintext) plaintext) (strlen plaintext)
       else Inl (BadRead 1))"
    by (simp add: crypt_day1_def crypt_day1_bytes_empty_key seq_def)
  from ld day1 day3 day5 key1 show ?thesis
    by (simp add: crypt_day1_bytes_empty_key crypt_day5_bytes_empty_key)
qed

text \<open>
  The parameters \<open>p = 2\<close>, \<open>q = 1\<close>, the key \<^verbatim>\<open>K\<close> and, for the empty key, the plaintext
  of seven letters \<^verbatim>\<open>A\<close>.
\<close>

theorem crypt_empty_inputs_witness:
  "int_range 2 \<and> int_range 1 \<and> int_range (2 + 1) \<and> int_range (2 - 1) \<and>
   crypt_day1 True [0x4B] [] = Inl (BadWrite 0) \<and>
   crypt_day3 True 2 1 [] = Inl (BadWrite 0) \<and>
   crypt_day5 True [0x4B] 1 [] = Inl (BadWrite 0) \<and>
   crypt_day1 True [] [0x41, 0x41, 0x41, 0x41, 0x41, 0x41, 0x41] = Inl (BadRead 1) \<and>
   crypt_day5_bytes True [] 1 [0x41, 0x41, 0x41, 0x41, 0x41, 0x41, 0x41] =
     Inr [0x3E, 0x3E, 0x3E, 0x3E, 0x3E, 0x3E, 0x3E]"
proof -
  have r: "int_range 2" "int_range 1" "int_range (2 + 1)" "int_range (2 - 1)"
    by (simp_all add: int_range_def)
  have len: "strlen [0x41, 0x41, 0x41, 0x41, 0x41, 0x41, 0x41] = 7"
    by (simp add: strlen_def)
  from crypt_empty_inputs [OF r, of True "[0x4B]" 1
      "[0x41, 0x41, 0x41, 0x41, 0x41, 0x41, 0x41]"] r
  show ?thesis by (simp add: len)
qed

text \<open>
  Claim C9 as stated has an empty key fault in each variant, like an empty plaintext.
  With the plaintext \<^verbatim>\<open>A\<close> and an empty key, Day 5 returns the string \<^verbatim>\<open>E3\<close> and Day 1
  the string \<^verbatim>\<open>41\<close>: the key index stays at 0 and every key read finds the terminator.
\<close>

theorem crypt_empty_key_returns:
  "crypt_day5 True [] 1 [0x41] = Inr [0x45, 0x33, 0] \<and>
   crypt_day1 True [] [0x41] = Inr [0x34, 0x31, 0]"
  apply (simp add: crypt_day5_def crypt_day5_bytes_def init_day5_def loop_day5.simps
      body_day5_def strlen_def seq_def load_str_def load_def store_def calloc_def
      char_to_int_def int_to_char_def Let_def
      charToHex_day5_def charToHex_loop.simps sprintf_02X_def fmt_02X_def
      hex_digits.simps hex_digit_def rev_c_def heap_calloc_def rev_loop.simps
      heap_load_def heap_store_def
      crypt_day1_def crypt_day1_bytes_def init_day1_def loop_day1.simps body_day1_def
      charToHex_def)
  apply (simp add: eval_nat_numeral)
  done

section \<open>Further properties\<close>

text \<open>
  The hex encoder on bytes below \<open>0x80\<close>, and on all bytes where \<^verbatim>\<open>char\<close> is unsigned:
  it returns a string of two digits for each byte, the high nibble first, in the order
  of the input.
\<close>

theorem charToHex_seven_bit:
  assumes "\<forall>c \<in> set ciphertext. \<not> sc \<or> c < 0x80"
  shows "\<exists>obj hex. charToHex sc ciphertext (length ciphertext) = Inr obj \<and>
    string_of obj = Inr hex \<and> length hex = 2 * length ciphertext \<and>
    (\<forall>i < length ciphertext.
       hex ! (2 * i) = hex_digit (unat (ciphertext ! i) div 16) \<and>
       hex ! (2 * i + 1) = hex_digit (unat (ciphertext ! i) mod 16))"
proof -
  let ?hex = "concat (map hex_pair ciphertext)"
  have run: "charToHex sc ciphertext (length ciphertext) = Inr (?hex @ [0])"
    using charToHex_loop_ok [OF assms] by (simp add: charToHex_def)
  have str: "string_of (?hex @ [0]) = Inr ?hex"
    using hex_nonzero by (rule string_of_terminated)
  have digits: "concat (map hex_pair cs) ! (2 * i) = hex_digit (unat (cs ! i) div 16) \<and>
      concat (map hex_pair cs) ! (2 * i + 1) = hex_digit (unat (cs ! i) mod 16)"
    if "i < length cs" for cs i
    using that
  proof (induction cs arbitrary: i)
    case Nil
    then show ?case by simp
  next
    case (Cons c cs)
    show ?case
    proof (cases i)
      case 0
      then show ?thesis by (simp add: hex_pair_def)
    next
      case (Suc j)
      then have "j < length cs" using Cons.prems by simp
      from Cons.IH [OF this] show ?thesis
        using Suc by (simp add: hex_pair_def)
    qed
  qed
  from run str digits show ?thesis
    by (simp add: length_hex)
qed

theorem charToHex_seven_bit_witness:
  "(0x0A :: byte) < 0x80 \<and> (0x7F :: byte) < 0x80 \<and>
   (\<exists>obj hex. charToHex True [0x0A, 0x7F] (length [0x0A, 0x7F :: byte]) = Inr obj \<and>
      string_of obj = Inr hex \<and> length hex = 2 * length [0x0A, 0x7F :: byte] \<and>
      hex ! (2 * 1) = hex_digit (unat ([0x0A, 0x7F :: byte] ! 1) div 16) \<and>
      hex ! (2 * 1 + 1) = hex_digit (unat ([0x0A, 0x7F :: byte] ! 1) mod 16))"
proof -
  have small: "(0x0A :: byte) < 0x80" "(0x7F :: byte) < 0x80" by simp_all
  then have "\<forall>c \<in> set [0x0A, 0x7F :: byte]. \<not> True \<or> c < 0x80" by simp
  from charToHex_seven_bit [OF this] obtain obj hex where
    "charToHex True [0x0A, 0x7F] (length [0x0A, 0x7F :: byte]) = Inr obj"
    "string_of obj = Inr hex" "length hex = 2 * length [0x0A, 0x7F :: byte]"
    "\<forall>i < length [0x0A, 0x7F :: byte].
       hex ! (2 * i) = hex_digit (unat ([0x0A, 0x7F :: byte] ! i) div 16) \<and>
       hex ! (2 * i + 1) = hex_digit (unat ([0x0A, 0x7F :: byte] ! i) mod 16)"
    by blast
  moreover have "(1::nat) < length [0x0A, 0x7F :: byte]" by simp
  ultimately show ?thesis using small by blast
qed

text \<open>
  The key index of Day 5 never returns to zero. Along the run it stays at or below the
  length of the key and never decreases, so the test \<^verbatim>\<open>key_index > strlen(key)\<close> never
  holds; and from a flip at the terminator on, every later byte is flipped.
\<close>

lemma body_day5_key_index:
  assumes "body_day5 sc key n plaintext s = Inr s'" "key_index s \<le> strlen key"
  shows "key_index s \<le> key_index s' \<and>
    (key_index s = strlen key \<and> \<not> skip s \<longrightarrow> key_index s' = strlen key \<and> \<not> skip s')"
proof (cases "skip s")
  case True
  then show ?thesis
    using assms(1) by (auto simp add: body_day5_def seq_def Let_def split: sum.splits)
next
  case False
  have ld: "load_str key (int (key_index s)) = Inr ((key @ [0]) ! key_index s)"
    using assms(2) by (rule load_str_le)
  show ?thesis
  proof (cases "key_index s = strlen key")
    case True
    then have "(key @ [0]) ! key_index s = 0" by (simp add: nth_strlen)
    then show ?thesis
      using assms(1) \<open>\<not> skip s\<close> ld True
      by (auto simp add: body_day5_def seq_def Let_def sint_char_to_int_0 split: sum.splits)
  next
    case False
    then have "key_index s < strlen key" using assms(2) by simp
    then show ?thesis
      using assms(1) \<open>\<not> skip s\<close> ld
      by (auto simp add: body_day5_def seq_def Let_def split: sum.splits if_splits)
  qed
qed

lemma day5_key_index_never_wraps:
  assumes "j \<le> k" "k \<le> strlen plaintext"
  shows "\<exists>sj sk. iter_day5 sc key n plaintext j = Inr sj \<and>
    iter_day5 sc key n plaintext k = Inr sk \<and>
    key_index sj \<le> key_index sk \<and> key_index sk \<le> strlen key \<and>
    (key_index sj = strlen key \<and> \<not> skip sj \<longrightarrow> key_index sk = strlen key \<and> \<not> skip sk)"
  using assms
proof (induction k)
  case 0
  then show ?case by (simp add: init_day5_def)
next
  case (Suc k)
  obtain s' where s': "iter_day5 sc key n plaintext (Suc k) = Inr s'"
    "key_index s' \<le> strlen key"
    using iter_day5_inv [OF Suc.prems(2), of sc key n] by auto
  show ?case
  proof (cases "j = Suc k")
    case True
    then show ?thesis using s' by simp
  next
    case False
    then have "j \<le> k" using Suc.prems(1) by simp
    moreover have "k \<le> strlen plaintext" using Suc.prems(2) by simp
    ultimately obtain sj sk where IH: "iter_day5 sc key n plaintext j = Inr sj"
      "iter_day5 sc key n plaintext k = Inr sk"
      "key_index sj \<le> key_index sk" "key_index sk \<le> strlen key"
      "key_index sj = strlen key \<and> \<not> skip sj \<longrightarrow> key_index sk = strlen key \<and> \<not> skip sk"
      using Suc.IH by blast
    have "body_day5 sc key n plaintext sk = Inr s'"
      using s'(1) IH(2) by simp
    from body_day5_key_index [OF this IH(4)] IH s' show ?thesis
      by auto
  qed
qed

text \<open>
  Claim C6, amended. There are a non-empty key and a plaintext for which the body of
  the loop of Day 5 is executed, in the flip phase, in a state whose key index is the
  length of the key, and \<^verbatim>\<open>key[key_index]\<close> is read there: the test
  \<^verbatim>\<open>key_index > strlen(key)\<close> lets the index reach the length. The byte read is the
  terminator of the key string, inside its array, and no run reads the key anywhere
  behind it: along every run the key index stays at or below the length of the key. It
  never decreases either, so the reset to zero never happens; and from a flip at the
  length of the key on, the index stays there and every later byte is flipped.
\<close>

theorem day5_key_index_at_key_length:
  assumes "j \<le> k" "k \<le> strlen plaintext"
  shows "(\<exists>key' n' plaintext' k' s. 0 < strlen key' \<and> k' < strlen plaintext' \<and>
      iter_day5 sc key' n' plaintext' k' = Inr s \<and> \<not> skip s \<and>
      key_index s = strlen key' \<and> load_str key' (int (key_index s)) = Inr 0 \<and>
      (\<exists>s'. body_day5 sc key' n' plaintext' s = Inr s' \<and> key_index s' = strlen key')) \<and>
    (\<exists>sj sk. iter_day5 sc key n plaintext j = Inr sj \<and>
      iter_day5 sc key n plaintext k = Inr sk \<and>
      key_index sj \<le> key_index sk \<and> key_index sk \<le> strlen key \<and>
      load_str key (int (key_index sk)) = Inr ((key @ [0]) ! key_index sk) \<and>
      (key_index sj = strlen key \<and> \<not> skip sj \<longrightarrow>
         key_index sk = strlen key \<and> \<not> skip sk))"
proof -
  obtain sj sk where run: "iter_day5 sc key n plaintext j = Inr sj"
    "iter_day5 sc key n plaintext k = Inr sk"
    "key_index sj \<le> key_index sk" "key_index sk \<le> strlen key"
    "key_index sj = strlen key \<and> \<not> skip sj \<longrightarrow> key_index sk = strlen key \<and> \<not> skip sk"
    using day5_key_index_never_wraps [OF assms, of sc key n] by blast
  have "load_str key (int (key_index sk)) = Inr ((key @ [0]) ! key_index sk)"
    using run(4) by (rule load_str_le)
  with run day5_key_read_at_key_length [of sc] show ?thesis
    by blast
qed

text \<open>
  The key \<^verbatim>\<open>2\<close>, \<open>n = 1\<close> and the plaintext \<^verbatim>\<open>abcd\<close>: the key index is 1, the length of
  the key, after two executions and still after four, in the flip phase both times.
\<close>

theorem day5_key_index_at_key_length_witness:
  "(2::nat) \<le> 4 \<and> 4 \<le> strlen [0x61, 0x62, 0x63, 0x64] \<and>
   (\<exists>sj sk. iter_day5 True [0x32] 1 [0x61, 0x62, 0x63, 0x64] 2 = Inr sj \<and>
      iter_day5 True [0x32] 1 [0x61, 0x62, 0x63, 0x64] 4 = Inr sk \<and>
      key_index sj = strlen [0x32] \<and> \<not> skip sj \<and>
      key_index sk = strlen [0x32] \<and> \<not> skip sk \<and>
      load_str [0x32] (int (key_index sk)) = Inr 0)"
proof -
  have len: "strlen [0x61, 0x62, 0x63, 0x64] = 4" "strlen [0x32] = 1"
    by (simp_all add: strlen_def)
  have h: "(2::nat) \<le> 4" "4 \<le> strlen [0x61, 0x62, 0x63, 0x64]"
    by (simp_all add: len)
  have "\<exists>s. iter_day5 True [0x32] 1 [0x61, 0x62, 0x63, 0x64] (Suc (Suc 0)) = Inr s \<and>
      key_index s = 1 \<and> \<not> skip s"
    by (simp add: init_day5_def body_day5_def strlen_def seq_def load_str_def load_def
        store_def calloc_def char_to_int_def Let_def)
  then have two: "\<exists>s. iter_day5 True [0x32] 1 [0x61, 0x62, 0x63, 0x64] 2 = Inr s \<and>
      key_index s = strlen [0x32] \<and> \<not> skip s"
    by (simp add: len numeral_2_eq_2)
  have rd: "load_str [0x32] (int 1) = Inr 0"
    by (simp add: load_str_def load_def)
  from day5_key_index_at_key_length [OF h, of True "[0x32]" 1] two h rd show ?thesis
    by (auto simp add: len)
qed

text \<open>
  Claim C6 as stated has the read at the length of the key out of bounds, the index
  there for one step, and a wrap to zero after it. In the run of the witness the read
  returns the terminator without a fault, and the index is at the length of the key
  in front of the third execution, in front of the fourth and at the end of the loop:
  it is not reset.
\<close>

theorem day5_key_read_in_bounds_no_wrap:
  "strlen [0x32] = 1 \<and> load_str [0x32] 1 = Inr 0 \<and>
   iter_day5 True [0x32] 1 [0x61, 0x62, 0x63, 0x64] (Suc (Suc 0)) =
     Inr \<lparr>ciphertext5 = [0x1E, 0x62, 0, 0], char_index = 2, repeat_index = 0,
          skip_index = 0, key_index = 1, skip = False\<rparr> \<and>
   iter_day5 True [0x32] 1 [0x61, 0x62, 0x63, 0x64] (Suc (Suc (Suc 0))) =
     Inr \<lparr>ciphertext5 = [0x1E, 0x62, 0x1C, 0], char_index = 3, repeat_index = 1,
          skip_index = 0, key_index = 1, skip = False\<rparr> \<and>
   iter_day5 True [0x32] 1 [0x61, 0x62, 0x63, 0x64] (Suc (Suc (Suc (Suc 0)))) =
     Inr \<lparr>ciphertext5 = [0x1E, 0x62, 0x1C, 0x1B], char_index = 4, repeat_index = 2,
          skip_index = 0, key_index = 1, skip = False\<rparr> \<and>
   crypt_day5_bytes True [0x32] 1 [0x61, 0x62, 0x63, 0x64] = Inr [0x1E, 0x62, 0x1C, 0x1B]"
  by (simp add: crypt_day5_bytes_def init_day5_def loop_day5.simps body_day5_def strlen_def
      seq_def load_str_def load_def store_def calloc_def char_to_int_def int_to_char_def
      Let_def)

text \<open>
  The two scenarios of the specification, to the printed string: Day 3 with \<open>p = 2\<close>,
  \<open>q = 1\<close> turns \<^verbatim>\<open>AB\<close> into \<^verbatim>\<open>4243\<close>, and Day 1 with the one-byte key \<open>0x01\<close> turns \<^verbatim>\<open>A\<close>
  into \<^verbatim>\<open>40\<close>.
\<close>

theorem crypt_day3_scenario:
  "crypt_day3 sc 2 1 [0x41, 0x42] = Inr [0x34, 0x32, 0x34, 0x33, 0] \<and>
   string_of [0x34, 0x32, 0x34, 0x33, 0] = Inr [0x34, 0x32, 0x34, 0x33]"
  apply (simp add: crypt_day3_def crypt_day3_bytes_def init_day3_def loop_day3.simps
      body_day3_def strlen_def seq_def load_str_def load_def store_def calloc_def c_rem_def
      char_to_int_def int_to_char_def string_of_def
      charToHex_def charToHex_loop.simps sprintf_02X_def fmt_02X_def
      hex_digits.simps hex_digit_def)
  apply (simp add: eval_nat_numeral)
  done

theorem crypt_day1_scenario:
  "crypt_day1 sc [0x01] [0x41] = Inr [0x34, 0x30, 0] \<and>
   string_of [0x34, 0x30, 0] = Inr [0x34, 0x30]"
  apply (simp add: crypt_day1_def crypt_day1_bytes_def init_day1_def loop_day1.simps
      body_day1_def strlen_def seq_def load_str_def load_def store_def calloc_def
      char_to_int_def int_to_char_def Let_def string_of_def
      charToHex_def charToHex_loop.simps sprintf_02X_def fmt_02X_def
      hex_digits.simps hex_digit_def)
  apply (simp add: eval_nat_numeral)
  done

end
